theory Spec2Isabelle
  imports Main "HOL-Library.Multiset" "HOL-Library.Sublist"
begin

section \<open>C++ values\<close>

text \<open>
  The program is \<^verbatim>\<open>MultiThreadedFileCompressionTool.cpp\<close>.  Its \<^verbatim>\<open>char\<close> is a byte, which
  is what \<^typ>\<open>char\<close> is here, and \<^verbatim>\<open>std::string\<close> is a \<^typ>\<open>string\<close>.  Its \<^verbatim>\<open>int\<close> is
  taken to be 32 bits wide in two's complement and its \<^verbatim>\<open>size_t\<close> 64 bits wide: every value
  stored in an \<^verbatim>\<open>int\<close> goes through \<open>int32\<close>, which wraps.  Where C++ leaves the behaviour
  undefined (a null pointer is dereferenced, \<^verbatim>\<open>top()\<close> of an empty queue, a read beyond a
  string or beyond the end of a stream, a division by zero) the model returns an \<open>error\<close>.
\<close>

definition int32 :: "int \<Rightarrow> int" where
  "int32 k = signed_take_bit 31 k"

datatype error =
  NullDereference | EmptyQueueTop | OutOfBounds | ReadPastEnd | DivisionByZero | LengthError

text \<open>
  \<^verbatim>\<open>s[i]\<close> on a \<^verbatim>\<open>const std::string&\<close>: the character at \<open>i\<close>, the terminating zero
  at \<open>i = size()\<close>, undefined elsewhere.
\<close>

definition string_at :: "string \<Rightarrow> int \<Rightarrow> error + char" where
  "string_at s i =
     (if 0 \<le> i \<and> i < int (length s) then Inr (s ! nat i)
      else if i = int (length s) then Inr (CHR 0x00)
      else Inl OutOfBounds)"

section \<open>Frequency counting\<close>

text \<open>
  \<^verbatim>\<open>unordered_map<char, int>\<close> is a finite map.  \<^verbatim>\<open>m[ch]\<close> reads 0 for a missing key
  (\<open>lookup0\<close>), and \<^verbatim>\<open>m[ch]++\<close> is \<open>increment\<close>.
\<close>

type_synonym freq_map = "char \<rightharpoonup> int"

definition lookup0 :: "freq_map \<Rightarrow> char \<Rightarrow> int" where
  "lookup0 m ch = (case m ch of None \<Rightarrow> 0 | Some v \<Rightarrow> v)"

definition increment :: "freq_map \<Rightarrow> char \<Rightarrow> freq_map" where
  "increment m ch = m(ch \<mapsto> int32 (lookup0 m ch + 1))"

text \<open>\<^verbatim>\<open>countFrequencySingle\<close>: \<^verbatim>\<open>for (char ch : data) freqMap[ch]++;\<close>\<close>

fun countFrequencySingle :: "string \<Rightarrow> freq_map \<Rightarrow> freq_map" where
  "countFrequencySingle [] freqMap = freqMap"
| "countFrequencySingle (ch # rest) freqMap = countFrequencySingle rest (increment freqMap ch)"

text \<open>
  \<^verbatim>\<open>countFrequencyThread\<close>: the loop \<^verbatim>\<open>for (int i = begin; i < finish; ++i) localMap[data[i]]++;\<close>
  is \<open>count_range\<close>, and the guarded merge \<^verbatim>\<open>globalMap[pair.first] += pair.second\<close> over the
  entries of the local table is \<open>merge_into\<close> (each key is visited once, so the order in
  which the table is walked does not show in the result).
\<close>

function count_range :: "string \<Rightarrow> int \<Rightarrow> int \<Rightarrow> freq_map \<Rightarrow> error + freq_map" where
  "count_range data i finish localMap =
     (if i < finish then
        (case string_at data i of
           Inl e \<Rightarrow> Inl e
         | Inr ch \<Rightarrow> count_range data (i + 1) finish (increment localMap ch))
      else Inr localMap)"
  by pat_completeness auto
termination
  by (relation "measure (\<lambda>(d, i, f, m). nat (f - i))") auto

declare count_range.simps [simp del]

definition merge_into :: "freq_map \<Rightarrow> freq_map \<Rightarrow> freq_map" where
  "merge_into localMap globalMap =
     (\<lambda>k. case localMap k of
            None \<Rightarrow> globalMap k
          | Some v \<Rightarrow> Some (int32 (lookup0 globalMap k + v)))"

definition countFrequencyThread :: "string \<Rightarrow> freq_map \<Rightarrow> int \<Rightarrow> int \<Rightarrow> error + freq_map" where
  "countFrequencyThread data globalMap start finish =
     (case count_range data start finish Map.empty of
        Inl e \<Rightarrow> Inl e
      | Inr localMap \<Rightarrow> Inr (merge_into localMap globalMap))"

text \<open>
  The counting block of \<^verbatim>\<open>compressDataFile\<close>.  \<^verbatim>\<open>int slice = fileData.size() / threadCount\<close>
  divides in \<^verbatim>\<open>size_t\<close> (a negative \<open>threadCount\<close> converts to \<open>2^64 + threadCount\<close>) and
  stores the quotient in an \<^verbatim>\<open>int\<close>.  The workers are then started for \<open>i = 0, 1, ...\<close>;
  each counts its own slice into its own table, and they merge under the mutex one at a
  time.  The model lets them merge in the order of their index (\<open>merge_into_any_order\<close> below:
  no other order gives another table).
\<close>

definition slice_of :: "nat \<Rightarrow> int \<Rightarrow> error + int" where
  "slice_of n threadCount =
     (if threadCount = 0 then Inl DivisionByZero
      else Inr (int32 (int n div (if 0 < threadCount then threadCount else 2 ^ 64 + threadCount))))"

function count_workers :: "string \<Rightarrow> int \<Rightarrow> int \<Rightarrow> int \<Rightarrow> freq_map \<Rightarrow> error + freq_map" where
  "count_workers fileData threadCount slice i freqMapMT =
     (if i < threadCount then
        (let startIdx = int32 (i * slice);
             endIdx = (if i = threadCount - 1 then int32 (int (length fileData))
                       else int32 (startIdx + slice))
         in case countFrequencyThread fileData freqMapMT startIdx endIdx of
              Inl e \<Rightarrow> Inl e
            | Inr m \<Rightarrow> count_workers fileData threadCount slice (i + 1) m)
      else Inr freqMapMT)"
  by pat_completeness auto
termination
  by (relation "measure (\<lambda>(d, t, s, i, m). nat (t - i))") auto

declare count_workers.simps [simp del]

definition countFrequencyParallel :: "string \<Rightarrow> int \<Rightarrow> error + freq_map" where
  "countFrequencyParallel fileData threadCount =
     (case slice_of (length fileData) threadCount of
        Inl e \<Rightarrow> Inl e
      | Inr slice \<Rightarrow> count_workers fileData threadCount slice 0 Map.empty)"

section \<open>The Huffman tree\<close>

text \<open>
  \<^verbatim>\<open>struct HuffmanNode\<close>: a character, a frequency and two child pointers, either of which
  may be null (\<open>None\<close>).  \<open>new_node\<close> is the constructor, which sets both children to null.
  A node is a leaf when both children are null, the test the program writes as
  \<^verbatim>\<open>!node->leftChild && !node->rightChild\<close>.
\<close>

datatype HuffmanNode =
  HuffmanNode (character: char) (frequency: int)
    (leftChild: "HuffmanNode option") (rightChild: "HuffmanNode option")

definition new_node :: "char \<Rightarrow> int \<Rightarrow> HuffmanNode" where
  "new_node ch freq = HuffmanNode ch freq None None"

definition is_leaf :: "HuffmanNode \<Rightarrow> bool" where
  "is_leaf n \<longleftrightarrow> leftChild n = None \<and> rightChild n = None"

text \<open>A strict tree: every node has two children or none.\<close>

fun strict :: "HuffmanNode \<Rightarrow> bool" where
  "strict (HuffmanNode ch fr None None) = True"
| "strict (HuffmanNode ch fr (Some l) (Some r)) = (strict l \<and> strict r)"
| "strict (HuffmanNode ch fr None (Some r)) = False"
| "strict (HuffmanNode ch fr (Some l) None) = False"

text \<open>The characters at the leaves, from left to right.\<close>

fun leaf_chars :: "HuffmanNode option \<Rightarrow> char list" where
  "leaf_chars None = []"
| "leaf_chars (Some (HuffmanNode ch fr l r)) =
     (if l = None \<and> r = None then [ch] else []) @ leaf_chars l @ leaf_chars r"

section \<open>Code table and bit strings\<close>

text \<open>
  \<^verbatim>\<open>createHuffmanCodes\<close> walks the tree and stores the path to each leaf under the leaf's
  character.  The table \<^verbatim>\<open>unordered_map<char, string>\<close> is a finite map, threaded through
  the two recursive calls.
\<close>

type_synonym code_map = "char \<rightharpoonup> string"

fun createHuffmanCodes :: "HuffmanNode option \<Rightarrow> string \<Rightarrow> code_map \<Rightarrow> code_map" where
  "createHuffmanCodes None currCode codeMap = codeMap"
| "createHuffmanCodes (Some (HuffmanNode ch fr l r)) currCode codeMap =
     (let m0 = (if l = None \<and> r = None then codeMap(ch \<mapsto> currCode) else codeMap);
          m1 = createHuffmanCodes l (currCode @ ''0'') m0
      in createHuffmanCodes r (currCode @ ''1'') m1)"

text \<open>
  \<^verbatim>\<open>huffmanEncode\<close>: \<^verbatim>\<open>for (char ch : data) encoded += codeTable[ch];\<close>  A character
  without an entry reads as the empty string (\<^verbatim>\<open>operator[]\<close> inserts it; the table is
  not used afterwards).
\<close>

definition code_of :: "code_map \<Rightarrow> char \<Rightarrow> string" where
  "code_of codeTable ch = (case codeTable ch of None \<Rightarrow> [] | Some c \<Rightarrow> c)"

fun huffmanEncode :: "string \<Rightarrow> code_map \<Rightarrow> string" where
  "huffmanEncode [] codeTable = []"
| "huffmanEncode (ch # rest) codeTable = code_of codeTable ch @ huffmanEncode rest codeTable"

text \<open>
  \<^verbatim>\<open>huffmanDecode\<close>: one step per character of the text; \<^verbatim>\<open>'0'\<close> goes left and every
  other character goes right.  Stepping to a null child and then testing it for a leaf
  dereferences a null pointer.
\<close>

fun decode_loop :: "HuffmanNode \<Rightarrow> HuffmanNode \<Rightarrow> string \<Rightarrow> string \<Rightarrow> error + string" where
  "decode_loop rootNode currNode [] result = Inr result"
| "decode_loop rootNode currNode (b # rest) result =
     (case (if b = CHR ''0'' then leftChild currNode else rightChild currNode) of
        None \<Rightarrow> Inl NullDereference
      | Some nxt \<Rightarrow>
          if leftChild nxt = None \<and> rightChild nxt = None
          then decode_loop rootNode rootNode rest (result @ [character nxt])
          else decode_loop rootNode nxt rest result)"

definition huffmanDecode :: "HuffmanNode \<Rightarrow> string \<Rightarrow> error + string" where
  "huffmanDecode rootNode encodedText = decode_loop rootNode rootNode encodedText []"

text \<open>
  \<^verbatim>\<open>threadedDecode\<close>: the same walk over the characters at the indices \<open>begin \<le> i < finish\<close>
  of the shared text, started at the root.
\<close>

function threaded_loop ::
  "string \<Rightarrow> HuffmanNode \<Rightarrow> HuffmanNode \<Rightarrow> int \<Rightarrow> int \<Rightarrow> string \<Rightarrow> error + string" where
  "threaded_loop encoded rootNode current i finish result =
     (if i < finish then
        (case string_at encoded i of
           Inl e \<Rightarrow> Inl e
         | Inr b \<Rightarrow>
             (case (if b = CHR ''0'' then leftChild current else rightChild current) of
                None \<Rightarrow> Inl NullDereference
              | Some nxt \<Rightarrow>
                  if leftChild nxt = None \<and> rightChild nxt = None
                  then threaded_loop encoded rootNode rootNode (i + 1) finish
                         (result @ [character nxt])
                  else threaded_loop encoded rootNode nxt (i + 1) finish result))
      else Inr result)"
  by pat_completeness auto
termination
  by (relation "measure (\<lambda>(e, r, c, i, f, res). nat (f - i))") auto

declare threaded_loop.simps [simp del]

definition threadedDecode :: "string \<Rightarrow> HuffmanNode \<Rightarrow> int \<Rightarrow> int \<Rightarrow> error + string" where
  "threadedDecode encoded rootNode start finish =
     threaded_loop encoded rootNode rootNode start finish []"

section \<open>Writing and reading the tree\<close>

text \<open>
  \<^verbatim>\<open>writeHuffmanTree\<close> returns the characters it sends to the stream: \<^verbatim>\<open>'1'\<close> and the
  character for a leaf, \<^verbatim>\<open>'0'\<close> for any other node, then the two subtrees.
\<close>

fun writeHuffmanTree :: "HuffmanNode option \<Rightarrow> string" where
  "writeHuffmanTree None = []"
| "writeHuffmanTree (Some (HuffmanNode ch fr l r)) =
     (if l = None \<and> r = None then [CHR ''1'', ch] else [CHR ''0''])
       @ writeHuffmanTree l @ writeHuffmanTree r"

text \<open>
  \<^verbatim>\<open>readHuffmanTree\<close> takes the unread rest of the stream and returns the node with what
  is left.  A read at the end of the stream leaves the variable uninitialised, which the
  model reports as \<open>ReadPastEnd\<close>.  Any marker other than \<^verbatim>\<open>'1'\<close> starts an inner node.
\<close>

function (domintros) readHuffmanTree :: "string \<Rightarrow> error + (HuffmanNode \<times> string)" where
  "readHuffmanTree [] = Inl ReadPastEnd"
| "readHuffmanTree (marker # rest) =
     (if marker = CHR ''1'' then
        (case rest of
           [] \<Rightarrow> Inl ReadPastEnd
         | ch # rest' \<Rightarrow> Inr (new_node ch 0, rest'))
      else
        (case readHuffmanTree rest of
           Inl e \<Rightarrow> Inl e
         | Inr (l, rest1) \<Rightarrow>
             (case readHuffmanTree rest1 of
                Inl e \<Rightarrow> Inl e
              | Inr (r, rest2) \<Rightarrow> Inr (HuffmanNode (CHR 0x00) 0 (Some l) (Some r), rest2))))"
  by pat_completeness auto

lemma readHuffmanTree_shorter:
  "readHuffmanTree_dom s \<Longrightarrow> readHuffmanTree s = Inr (t, rest') \<Longrightarrow> length rest' < length s"
proof (induction s arbitrary: t rest' rule: readHuffmanTree.pinduct)
  case 1
  then show ?case by (simp add: readHuffmanTree.psimps)
next
  case (2 marker rest)
  show ?case
  proof (cases "marker = CHR ''1''")
    case True
    with "2.prems" "2.hyps" show ?thesis
      by (auto simp: readHuffmanTree.psimps split: list.splits)
  next
    case False
    with "2.prems" "2.hyps" obtain l rest1 r where
      l: "readHuffmanTree rest = Inr (l, rest1)" and
      r: "readHuffmanTree rest1 = Inr (r, rest')"
      by (auto simp: readHuffmanTree.psimps split: sum.splits prod.splits)
    have "length rest1 < length rest" using "2.IH"(1)[OF False l] .
    moreover have "length rest' < length rest1" using "2.IH"(2)[OF False l refl r] .
    ultimately show ?thesis by simp
  qed
qed

termination readHuffmanTree
proof (relation "measure length")
  show "wf (measure length)" by simp
next
  fix marker :: char and rest :: string
  show "(rest, marker # rest) \<in> measure length" by simp
next
  fix marker :: char and rest x2 x y
  assume "marker \<noteq> CHR ''1''" "readHuffmanTree rest = Inr x2" "(x, y) = x2"
    "readHuffmanTree_dom rest"
  then show "(y, marker # rest) \<in> measure length"
    using readHuffmanTree_shorter[of rest x y] by simp
qed

declare readHuffmanTree.simps [simp del]

section \<open>Building the tree\<close>

text \<open>
  \<^verbatim>\<open>std::priority_queue<HuffmanNode*, vector<HuffmanNode*>, HuffmanCompare>\<close>.  With
  \<^verbatim>\<open>HuffmanCompare\<close> the queue yields a node of least frequency; which one among several of
  the same frequency is the library's choice.  The model keeps the nodes in the order in which
  they were pushed and takes that choice as a parameter \<open>tie\<close>: of the positions that hold a
  least frequency, \<^verbatim>\<open>top()\<close> is the one numbered \<open>tie h\<close> (modulo how many there are).
  Every theorem below holds for every \<open>tie\<close>.
\<close>

definition HuffmanCompare :: "HuffmanNode \<Rightarrow> HuffmanNode \<Rightarrow> bool" where
  "HuffmanCompare a b \<longleftrightarrow> frequency a > frequency b"

type_synonym tie_break = "HuffmanNode list \<Rightarrow> nat"

definition least_positions :: "HuffmanNode list \<Rightarrow> nat list" where
  "least_positions h = filter (\<lambda>i. list_all (\<lambda>y. \<not> HuffmanCompare (h ! i) y) h) [0..<length h]"

definition top_position :: "tie_break \<Rightarrow> HuffmanNode list \<Rightarrow> nat" where
  "top_position tie h = least_positions h ! (tie h mod length (least_positions h))"

definition pq_top :: "tie_break \<Rightarrow> HuffmanNode list \<Rightarrow> error + HuffmanNode" where
  "pq_top tie h = (if h = [] then Inl EmptyQueueTop else Inr (h ! top_position tie h))"

definition pq_pop :: "tie_break \<Rightarrow> HuffmanNode list \<Rightarrow> HuffmanNode list" where
  "pq_pop tie h = take (top_position tie h) h @ drop (Suc (top_position tie h)) h"

definition pq_push :: "HuffmanNode \<Rightarrow> HuffmanNode list \<Rightarrow> HuffmanNode list" where
  "pq_push x h = h @ [x]"

text \<open>One such choice, for running the program: the first of the positions.\<close>

definition first_least :: tie_break where
  "first_least h = 0"

text \<open>A queue that is not empty has a position of least frequency, so \<^verbatim>\<open>pop()\<close> takes one node off.\<close>

lemma least_positions_nonempty: "h \<noteq> [] \<Longrightarrow> least_positions h \<noteq> []"
proof -
  assume "h \<noteq> []"
  then have ne: "frequency ` set h \<noteq> {}" and fin: "finite (frequency ` set h)" by simp_all
  have "Min (frequency ` set h) \<in> frequency ` set h" using fin ne by (rule Min_in)
  then obtain x where xin: "x \<in> set h" and xm: "frequency x = Min (frequency ` set h)" by auto
  have "\<forall>y\<in>set h. frequency x \<le> frequency y"
    unfolding xm using fin by (auto intro: Min_le)
  with xin obtain x where x: "x \<in> set h" "\<forall>y\<in>set h. frequency x \<le> frequency y"
    by blast
  then obtain i where i: "i < length h" "h ! i = x" by (auto simp: in_set_conv_nth)
  then have "i \<in> set (least_positions h)"
    using x by (auto simp: least_positions_def HuffmanCompare_def list_all_iff)
  then show ?thesis by auto
qed

lemma top_position_less: "h \<noteq> [] \<Longrightarrow> top_position tie h < length h"
proof -
  assume h: "h \<noteq> []"
  let ?ps = "least_positions h"
  have "?ps \<noteq> []" using h by (rule least_positions_nonempty)
  then have "?ps ! (tie h mod length ?ps) \<in> set ?ps" by simp
  then show ?thesis by (auto simp: top_position_def least_positions_def)
qed

lemma length_pq_pop: "h \<noteq> [] \<Longrightarrow> length (pq_pop tie h) = length h - 1"
  using top_position_less[of h tie] by (simp add: pq_pop_def)

text \<open>
  The loop \<^verbatim>\<open>while (minHeap.size() > 1)\<close> of \<^verbatim>\<open>compressDataFile\<close>: the two nodes on top are
  taken off and a node over them is pushed, the sum of their frequencies stored in its
  \<^verbatim>\<open>int\<close> field.
\<close>

function merge_loop :: "tie_break \<Rightarrow> HuffmanNode list \<Rightarrow> HuffmanNode list" where
  "merge_loop tie minHeap =
     (if length minHeap > 1 then
        (let left = minHeap ! top_position tie minHeap;
             heap1 = pq_pop tie minHeap;
             right = heap1 ! top_position tie heap1;
             heap2 = pq_pop tie heap1;
             merged = HuffmanNode (CHR 0x00) (int32 (frequency left + frequency right))
                        (Some left) (Some right)
         in merge_loop tie (pq_push merged heap2))
      else minHeap)"
  by pat_completeness auto
termination
proof (relation "measure (\<lambda>(tie, h). length h)")
  show "wf (measure (\<lambda>(tie, h). length h))" by simp
next
  fix tie :: tie_break and minHeap left heap1 right heap2 merged
  assume big: "1 < length minHeap" and h1: "heap1 = pq_pop tie minHeap"
    and h2: "heap2 = pq_pop tie heap1"
  from big have "minHeap \<noteq> []" by auto
  then have l1: "length heap1 = length minHeap - 1" unfolding h1 by (rule length_pq_pop)
  with big have "heap1 \<noteq> []" by auto
  then have "length heap2 = length heap1 - 1" unfolding h2 by (rule length_pq_pop)
  with l1 big have "length (pq_push merged heap2) = length minHeap - 1"
    by (simp add: pq_push_def)
  with big
  show "((tie, pq_push merged heap2), (tie, minHeap)) \<in> measure (\<lambda>(tie, h). length h)"
    by simp
qed

declare merge_loop.simps [simp del]

text \<open>
  The queue is filled from the frequency table, \<^verbatim>\<open>for (auto& pair : freqMapMT)\<close>.  The
  order in which an \<^verbatim>\<open>unordered_map\<close> is walked is the library's; the model walks the
  keys in the order of their byte values.  With the queue's choice among equal frequencies
  left open by \<open>tie\<close>, this fixes nothing about the tree.
\<close>

definition keys_of :: "freq_map \<Rightarrow> char list" where
  "keys_of freqMap = filter (\<lambda>c. freqMap c \<noteq> None) Enum.enum"

definition seed_heap :: "freq_map \<Rightarrow> HuffmanNode list" where
  "seed_heap freqMap =
     foldl (\<lambda>h c. pq_push (new_node c (lookup0 freqMap c)) h) [] (keys_of freqMap)"

section \<open>The two pipelines\<close>

text \<open>
  \<^verbatim>\<open>compressDataFile\<close> on the bytes of the source file, returning the bytes written to the
  target file: the tree, a newline, the code of every byte as characters \<^verbatim>\<open>'0'\<close> and
  \<^verbatim>\<open>'1'\<close>.  Opening the files, the console output and the timing are left out, and with the
  timing the call of \<^verbatim>\<open>countFrequencySingle\<close>, whose table is not used: the tree is built from
  the table of the workers.
\<close>

definition compressDataFile :: "tie_break \<Rightarrow> string \<Rightarrow> int \<Rightarrow> error + string" where
  "compressDataFile tie fileData threadCount =
     (case countFrequencyParallel fileData threadCount of
        Inl e \<Rightarrow> Inl e
      | Inr freqMapMT \<Rightarrow>
          (let minHeap = merge_loop tie (seed_heap freqMapMT) in
           case pq_top tie minHeap of
             Inl e \<Rightarrow> Inl e
           | Inr root \<Rightarrow>
               (let codeDict = createHuffmanCodes (Some root) [] Map.empty;
                    encodedBinary = huffmanEncode fileData codeDict
                in Inr (writeHuffmanTree (Some root) @ [CHR 0x0A] @ encodedBinary))))"

text \<open>
  \<^verbatim>\<open>decompressDataFile\<close> on the bytes of the compressed file, returning the bytes written
  to the target file.  The tree is read, one more character is skipped, the rest is the bit
  text.  The text is decoded once in a single pass, whose result is only timed, and once by
  \<open>threadCount\<close> workers on the ranges \<open>[i * slice, i * slice + slice)\<close>, the last one running
  to the end; what the workers return is joined in the order of \<open>i\<close> and written
  (\<open>decodeParallel\<close>).  A negative \<open>threadCount\<close> makes \<^verbatim>\<open>vector<string> segments(threadCount)\<close>
  throw.
\<close>

function decode_workers ::
  "string \<Rightarrow> HuffmanNode \<Rightarrow> int \<Rightarrow> int \<Rightarrow> int \<Rightarrow> string list \<Rightarrow> error + string list" where
  "decode_workers binaryData root threadCount slice i segments =
     (if i < threadCount then
        (let startIdx = int32 (i * slice);
             endIdx = (if i = threadCount - 1 then int32 (int (length binaryData))
                       else int32 (startIdx + slice))
         in case threadedDecode binaryData root startIdx endIdx of
              Inl e \<Rightarrow> Inl e
            | Inr part \<Rightarrow>
                decode_workers binaryData root threadCount slice (i + 1) (segments @ [part]))
      else Inr segments)"
  by pat_completeness auto
termination
  by (relation "measure (\<lambda>(d, r, t, s, i, segs). nat (t - i))") auto

declare decode_workers.simps [simp del]

definition decodeParallel :: "string \<Rightarrow> HuffmanNode \<Rightarrow> int \<Rightarrow> error + string" where
  "decodeParallel binaryData root threadCount =
     (case slice_of (length binaryData) threadCount of
        Inl e \<Rightarrow> Inl e
      | Inr slice \<Rightarrow>
          if threadCount < 0 then Inl LengthError
          else (case decode_workers binaryData root threadCount slice 0 [] of
                  Inl e \<Rightarrow> Inl e
                | Inr segments \<Rightarrow> Inr (concat segments)))"

definition decompressDataFile :: "string \<Rightarrow> int \<Rightarrow> error + string" where
  "decompressDataFile artifact threadCount =
     (case readHuffmanTree artifact of
        Inl e \<Rightarrow> Inl e
      | Inr (root, rest) \<Rightarrow>
          (let binaryData = drop 1 rest in
           case huffmanDecode root binaryData of
             Inl e \<Rightarrow> Inl e
           | Inr decodedST \<Rightarrow> decodeParallel binaryData root threadCount))"

section \<open>Notions used in the statements and proofs\<close>

text \<open>
  The assignments \<^verbatim>\<open>codeMap[character] = currCode\<close> that \<^verbatim>\<open>createHuffmanCodes\<close> makes, in
  the order in which it makes them, and one such assignment.
\<close>

fun leaf_codes :: "HuffmanNode option \<Rightarrow> string \<Rightarrow> (char \<times> string) list" where
  "leaf_codes None currCode = []"
| "leaf_codes (Some (HuffmanNode ch fr l r)) currCode =
     (if l = None \<and> r = None then [(ch, currCode)] else [])
       @ leaf_codes l (currCode @ ''0'') @ leaf_codes r (currCode @ ''1'')"

definition store :: "char \<times> string \<Rightarrow> code_map \<Rightarrow> code_map" where
  "store cp m = m(fst cp \<mapsto> snd cp)"

text \<open>
  What is left of a tree when it is written and read back: \<^verbatim>\<open>readHuffmanTree\<close> sets every
  frequency to 0 and the character of every inner node to \<^verbatim>\<open>'\0'\<close>.  The shape and the
  characters at the leaves are kept.
\<close>

fun skeleton :: "HuffmanNode \<Rightarrow> HuffmanNode" where
  "skeleton (HuffmanNode ch fr None None) = HuffmanNode ch 0 None None"
| "skeleton (HuffmanNode ch fr (Some l) (Some r)) =
     HuffmanNode (CHR 0x00) 0 (Some (skeleton l)) (Some (skeleton r))"
| "skeleton (HuffmanNode ch fr None (Some r)) = HuffmanNode (CHR 0x00) 0 None (Some (skeleton r))"
| "skeleton (HuffmanNode ch fr (Some l) None) = HuffmanNode (CHR 0x00) 0 (Some (skeleton l)) None"

text \<open>
  Two trees of the same shape with the same characters at their leaves (the frequencies and
  the characters of the inner nodes may differ).
\<close>

fun same_shape :: "HuffmanNode \<Rightarrow> HuffmanNode \<Rightarrow> bool" where
  "same_shape (HuffmanNode c1 f1 None None) (HuffmanNode c2 f2 None None) = (c1 = c2)"
| "same_shape (HuffmanNode c1 f1 (Some l1) (Some r1)) (HuffmanNode c2 f2 (Some l2) (Some r2)) =
     (same_shape l1 l2 \<and> same_shape r1 r2)"
| "same_shape t1 t2 = False"

text \<open>How the decoders read a character of the bit text: \<^verbatim>\<open>'0'\<close> or anything else.\<close>

definition as_bit :: "char \<Rightarrow> char" where
  "as_bit c = (if c = CHR ''0'' then CHR ''0'' else CHR ''1'')"

text \<open>
  The tree that \<^verbatim>\<open>compressDataFile\<close> builds for the bytes \<^verbatim>\<open>ccccabb\<close>, used to instantiate
  the theorems.  The frequencies 1, 2 and 4 and the sum 3 are all different, so the queue
  never has a choice and the tree is the same for every \<open>tie\<close>.  Its codes are \<^verbatim>\<open>00\<close> for
  \<^verbatim>\<open>a\<close>, \<^verbatim>\<open>01\<close> for \<^verbatim>\<open>b\<close> and \<^verbatim>\<open>1\<close> for \<^verbatim>\<open>c\<close>.
\<close>

definition example_tree :: HuffmanNode where
  "example_tree =
     HuffmanNode (CHR 0x00) 7
       (Some (HuffmanNode (CHR 0x00) 3 (Some (new_node CHR ''a'' 1)) (Some (new_node CHR ''b'' 2))))
       (Some (new_node CHR ''c'' 4))"

text \<open>
  Following a path from a node, and texts made of \<^verbatim>\<open>'0'\<close> and \<^verbatim>\<open>'1'\<close> only.
\<close>

fun descend :: "HuffmanNode \<Rightarrow> string \<Rightarrow> HuffmanNode option" where
  "descend n [] = Some n"
| "descend n (b # bs) =
     (case (if b = CHR ''0'' then leftChild n else rightChild n) of
        None \<Rightarrow> None
      | Some m \<Rightarrow> descend m bs)"

definition bits :: "string \<Rightarrow> bool" where
  "bits s \<longleftrightarrow> list_all (\<lambda>c. c = CHR ''0'' \<or> c = CHR ''1'') s"

text \<open>The leaf characters of all the trees in the queue.\<close>

definition forest_leaves :: "HuffmanNode list \<Rightarrow> char multiset" where
  "forest_leaves h = (\<Sum>t\<in>#mset h. mset (leaf_chars (Some t)))"

text \<open>
  A split of a bit text into contiguous ranges is the list of its boundaries, from 0 to the
  length of the text.  \<open>decode_split\<close> runs \<^verbatim>\<open>threadedDecode\<close> on each range and joins the
  results in order, as \<^verbatim>\<open>decompressDataFile\<close> does with its own boundaries
  \<open>worker_bounds\<close>.  The parameters \<^verbatim>\<open>begin\<close> and \<^verbatim>\<open>finish\<close> of \<^verbatim>\<open>threadedDecode\<close> are
  \<^verbatim>\<open>int\<close>s, so each boundary goes through \<open>int32\<close> on its way into the call, as the length
  of the text does in \<^verbatim>\<open>decompressDataFile\<close>.  The code-word boundaries of an encoding are the
  lengths of the encodings of the prefixes of the data.
\<close>

fun decode_split :: "string \<Rightarrow> HuffmanNode \<Rightarrow> int list \<Rightarrow> error + string" where
  "decode_split encoded rootNode (s # f # bs) =
     (case threadedDecode encoded rootNode (int32 s) (int32 f) of
        Inl e \<Rightarrow> Inl e
      | Inr part \<Rightarrow>
          (case decode_split encoded rootNode (f # bs) of
             Inl e \<Rightarrow> Inl e
           | Inr more \<Rightarrow> Inr (part @ more)))"
| "decode_split encoded rootNode bs = Inr []"

definition is_split :: "int list \<Rightarrow> string \<Rightarrow> bool" where
  "is_split bs encoded \<longleftrightarrow>
     bs \<noteq> [] \<and> hd bs = 0 \<and> last bs = int (length encoded) \<and> sorted bs"

definition codeword_boundaries :: "string \<Rightarrow> code_map \<Rightarrow> int list" where
  "codeword_boundaries data codes =
     map (\<lambda>k. int (length (huffmanEncode (take k data) codes))) [0..<Suc (length data)]"

definition worker_bounds :: "nat \<Rightarrow> int \<Rightarrow> int list" where
  "worker_bounds n W = map (\<lambda>i. i * (int n div W)) [0..W - 1] @ [int n]"

section \<open>Facts about the frequency tables\<close>

lemma int32_id: "- (2 ^ 31) \<le> k \<Longrightarrow> k < 2 ^ 31 \<Longrightarrow> int32 k = k"
  unfolding int32_def by (rule signed_take_bit_int_eq_self)

lemma int32_index:
  "0 \<le> k \<Longrightarrow> k \<le> int (length e) \<Longrightarrow> int (length e) < 2 ^ 31 \<Longrightarrow> int32 k = k"
  by (intro int32_id) linarith+

lemma int32_add_left: "int32 (int32 a + b) = int32 (a + b)"
  unfolding int32_def by (metis signed_take_bit_add signed_take_bit_signed_take_bit min.idem)

lemma int32_add_right: "int32 (a + int32 b) = int32 (a + b)"
  by (metis add.commute int32_add_left)

lemma lookup0_increment:
  "lookup0 (increment m x) c = (if c = x then int32 (lookup0 m x + 1) else lookup0 m c)"
  by (simp add: lookup0_def increment_def)

lemma countFrequencySingle_apply:
  "countFrequencySingle xs m c =
     (if c \<in> set xs then Some (int32 (lookup0 m c + int (count_list xs c))) else m c)"
proof (induction xs arbitrary: m)
  case Nil
  show ?case by simp
next
  case (Cons x xs)
  have step: "countFrequencySingle (x # xs) m c =
      (if c \<in> set xs then Some (int32 (lookup0 (increment m x) c + int (count_list xs c)))
       else increment m x c)"
    by (simp add: Cons.IH)
  show ?case
  proof (cases "c = x")
    case True
    have "int32 (int32 (lookup0 m x + 1) + int (count_list xs x))
            = int32 (lookup0 m x + (1 + int (count_list xs x)))"
      by (simp only: int32_add_left) (simp add: algebra_simps)
    with True show ?thesis
      unfolding step by (simp add: lookup0_increment) (simp add: increment_def)
  next
    case False
    then show ?thesis
      unfolding step by (simp add: lookup0_increment) (simp add: increment_def)
  qed
qed

lemma countFrequencySingle_append:
  "countFrequencySingle (xs @ ys) m = countFrequencySingle ys (countFrequencySingle xs m)"
  by (induction xs arbitrary: m) simp_all

lemma dom_countFrequencySingle: "dom (countFrequencySingle xs m) = dom m \<union> set xs"
  by (auto simp: countFrequencySingle_apply dom_def split: if_splits)

lemma merge_into_local:
  "merge_into (countFrequencySingle xs Map.empty) g = countFrequencySingle xs g"
proof
  fix c
  show "merge_into (countFrequencySingle xs Map.empty) g c = countFrequencySingle xs g c"
    by (simp add: merge_into_def countFrequencySingle_apply lookup0_def int32_add_right
        split: option.splits)
qed

text \<open>
  The workers take the mutex in an order that the scheduler picks.  Merging is commutative,
  so merging the local tables in any order gives the same table as merging them in the order
  of the workers' indices, which is what \<open>count_workers\<close> does.
\<close>

lemma merge_into_commute:
  "merge_into a (merge_into b g) = merge_into b (merge_into a g)"
proof
  fix k
  have "int32 (int32 (x + vb) + va) = int32 (int32 (x + va) + vb)" for x va vb
    by (simp only: int32_add_left) (simp add: algebra_simps)
  then show "merge_into a (merge_into b g) k = merge_into b (merge_into a g) k"
    by (simp add: merge_into_def lookup0_def split: option.splits)
qed

lemma merge_into_any_order:
  assumes "mset ls = mset ls'"
  shows "fold merge_into ls g = fold merge_into ls' g"
  using assms
  by (rule fold_permuted_eq[where P = "\<lambda>_. True"]) (simp_all add: merge_into_commute)

lemma count_range_eq:
  "0 \<le> i \<Longrightarrow> i \<le> f \<Longrightarrow> f \<le> int (length d) \<Longrightarrow>
   count_range d i f m = Inr (countFrequencySingle (take (nat (f - i)) (drop (nat i) d)) m)"
proof (induction d i f m rule: count_range.induct)
  case (1 d i f m)
  show ?case
  proof (cases "i < f")
    case False
    with "1.prems" show ?thesis by (subst count_range.simps) simp
  next
    case True
    with "1.prems" have at: "string_at d i = Inr (d ! nat i)"
      by (simp add: string_at_def)
    from True "1.prems" have lt: "nat i < length d" by linarith
    have split: "take (nat (f - i)) (drop (nat i) d)
                   = d ! nat i # take (nat (f - (i + 1))) (drop (nat (i + 1)) d)"
    proof -
      have "drop (nat i) d = d ! nat i # drop (Suc (nat i)) d"
        using lt by (simp add: Cons_nth_drop_Suc)
      moreover have "nat (f - i) = Suc (nat (f - (i + 1)))" using True by linarith
      moreover have "nat (i + 1) = Suc (nat i)" using "1.prems"(1) by linarith
      ultimately show ?thesis by simp
    qed
    have "count_range d i f m = count_range d (i + 1) f (increment m (d ! nat i))"
      using True at by (subst count_range.simps) simp
    also have "\<dots> = Inr (countFrequencySingle
                         (take (nat (f - (i + 1))) (drop (nat (i + 1)) d))
                         (increment m (d ! nat i)))"
      using "1.IH"[OF True at] True "1.prems" by simp
    finally show ?thesis by (simp add: split)
  qed
qed

lemma countFrequencyThread_eq:
  assumes "0 \<le> s" "s \<le> f" "f \<le> int (length d)"
  shows "countFrequencyThread d (countFrequencySingle (take (nat s) d) Map.empty) s f
           = Inr (countFrequencySingle (take (nat f) d) Map.empty)"
proof -
  have "take (nat f) d = take (nat s) d @ take (nat (f - s)) (drop (nat s) d)"
  proof -
    have "nat f = nat s + nat (f - s)" using assms by linarith
    then show ?thesis by (simp add: take_add)
  qed
  then show ?thesis
    using assms
    by (simp add: countFrequencyThread_def count_range_eq merge_into_local
        countFrequencySingle_append)
qed

lemma slice_times_le:
  assumes "1 \<le> (W::int)" "0 \<le> i" "i \<le> W"
  shows "i * (int n div W) \<le> int n"
proof -
  have "i * (int n div W) \<le> W * (int n div W)"
    using assms by (intro mult_right_mono) (simp_all add: pos_imp_zdiv_nonneg_iff)
  also have "\<dots> = int n - int n mod W"
    by (simp add: minus_mod_eq_mult_div)
  also have "\<dots> \<le> int n"
    using assms by simp
  finally show ?thesis .
qed

lemma count_workers_covers:
  assumes W: "1 \<le> W" and n: "int (length d) < 2 ^ 31"
  shows "0 \<le> i \<Longrightarrow> i \<le> W \<Longrightarrow> k = nat (W - i) \<Longrightarrow>
         count_workers d W (int (length d) div W) i
           (countFrequencySingle
              (take (nat (if i = W then int (length d) else i * (int (length d) div W))) d)
              Map.empty)
         = Inr (countFrequencySingle d Map.empty)"
proof (induction k arbitrary: i)
  case 0
  then have "i = W" by simp
  then show ?case by (subst count_workers.simps) simp
next
  case (Suc k)
  let ?n = "int (length d)"
  let ?s = "?n div W"
  let ?cov = "\<lambda>j. if j = W then ?n else j * ?s"
  from Suc.prems have lt: "i < W" by linarith
  have s0: "0 \<le> i * ?s"
    using Suc.prems(1) W by (simp add: pos_imp_zdiv_nonneg_iff)
  have s1: "i * ?s \<le> ?n"
    using slice_times_le[OF W Suc.prems(1) Suc.prems(2)] .
  have s2: "(i + 1) * ?s \<le> ?n"
    using slice_times_le[OF W, of "i + 1" "length d"] Suc.prems(1) lt by simp
  have start: "int32 (i * ?s) = i * ?s"
    using s0 s1 n by (intro int32_id) linarith+
  have stop: "(if i = W - 1 then int32 ?n else int32 (i * ?s + ?s)) = ?cov (i + 1)"
  proof (cases "i = W - 1")
    case True
    then show ?thesis using n by (simp add: int32_id)
  next
    case False
    have "0 \<le> i * ?s + ?s" "i * ?s + ?s < 2 ^ 31"
      using s0 s2 n W by (simp_all add: pos_imp_zdiv_nonneg_iff distrib_right)
    then have "int32 (i * ?s + ?s) = i * ?s + ?s" by (intro int32_id) linarith+
    with False show ?thesis by (simp add: distrib_right)
  qed
  have cov_le: "i * ?s \<le> ?cov (i + 1)" "?cov (i + 1) \<le> ?n"
    using s1 s2 W by (auto simp: distrib_right pos_imp_zdiv_nonneg_iff)
  have worker: "countFrequencyThread d (countFrequencySingle (take (nat (i * ?s)) d) Map.empty)
                  (i * ?s) (?cov (i + 1))
                = Inr (countFrequencySingle (take (nat (?cov (i + 1))) d) Map.empty)"
    using countFrequencyThread_eq[OF s0 cov_le] .
  have next_step: "count_workers d W ?s (i + 1)
                     (countFrequencySingle (take (nat (?cov (i + 1))) d) Map.empty)
                   = Inr (countFrequencySingle d Map.empty)"
    using Suc.IH[of "i + 1"] Suc.prems lt by simp
  have "count_workers d W ?s i (countFrequencySingle (take (nat (i * ?s)) d) Map.empty)
          = Inr (countFrequencySingle d Map.empty)"
    by (subst count_workers.simps) (simp add: lt start stop Let_def worker next_step del: One_nat_def)
  with lt show ?case by simp
qed

section \<open>Parallel and sequential counting\<close>

lemma slice_of_exact:
  assumes "1 \<le> W" and "int n < 2 ^ 31"
  shows "slice_of n W = Inr (int n div W)"
proof -
  have "0 \<le> int n div W" "int n div W \<le> int n"
    using assms(1) slice_times_le[of W 1 n] by (simp_all add: pos_imp_zdiv_nonneg_iff)
  with assms show ?thesis by (simp add: slice_of_def int32_id)
qed

lemma count_workers_all:
  assumes "1 \<le> W" and "int (length b) < 2 ^ 31"
  shows "count_workers b W (int (length b) div W) 0 Map.empty
           = Inr (countFrequencySingle b Map.empty)"
  using count_workers_covers[OF assms, of 0 "nat W"] assms(1) by simp

lemma length_int_bound: "length (xs :: 'a list) < 2 ^ 31 \<Longrightarrow> int (length xs) < 2 ^ 31"
proof -
  assume "length xs < 2 ^ 31"
  then have "int (length xs) < int (2 ^ 31)" by (simp only: of_nat_less_iff)
  then show ?thesis by simp
qed

lemma countFrequencyParallel_sequential:
  assumes "1 \<le> W" and "length b < 2 ^ 31"
  shows "countFrequencyParallel b W = Inr (countFrequencySingle b Map.empty)"
  using assms
  by (simp add: countFrequencyParallel_def slice_of_exact count_workers_all length_int_bound)

text \<open>
  C3.  For every buffer of fewer than \<open>2^31\<close> bytes and every worker count \<open>W \<ge> 1\<close>, the
  table that the workers of \<^verbatim>\<open>compressDataFile\<close> build (slice \<open>i\<close> starts at
  \<open>i * (n div W)\<close>, the last slice runs to the end, the local tables are merged) is the table
  of the single pass \<^verbatim>\<open>countFrequencySingle\<close>.  The empty buffer and \<open>W > n\<close> are included.
\<close>

theorem parallel_count_eq_sequential:
  assumes "1 \<le> W" and "length b < 2 ^ 31"
  shows "countFrequencyParallel b W = Inr (countFrequencySingle b Map.empty)"
proof -
  from assms(2) have n: "int (length b) < 2 ^ 31" by (rule length_int_bound)
  have "slice_of (length b) W = Inr (int (length b) div W)"
    using assms(1) n by (rule slice_of_exact)
  moreover have "count_workers b W (int (length b) div W) 0 Map.empty
                   = Inr (countFrequencySingle b Map.empty)"
    using assms(1) n by (rule count_workers_all)
  ultimately show ?thesis by (simp add: countFrequencyParallel_def)
qed

theorem parallel_count_eq_sequential_witness:
  "(1::int) \<le> 3 \<and> length ''abracadabra'' < 2 ^ 31 \<and>
   countFrequencyParallel ''abracadabra'' 3
     = Inr (countFrequencySingle ''abracadabra'' Map.empty)"
  using parallel_count_eq_sequential[of 3 "''abracadabra''"] by simp

text \<open>
  Without the bound the statement fails: the indices are \<^verbatim>\<open>int\<close>s.  On a buffer of
  \<open>2^31\<close> bytes and one worker, \<^verbatim>\<open>slice\<close> and \<^verbatim>\<open>endIdx\<close> wrap to \<open>- 2^31\<close>, the worker's
  loop does not run, and the parallel table is empty while the sequential one is not.
\<close>

lemma int32_wrap: "int32 2147483648 = - 2147483648"
  by (simp add: int32_def signed_take_bit_eq_take_bit_shift)

lemma int32_zero: "int32 0 = 0"
  by (simp add: int32_def)

lemma parallel_count_two_gib:
  assumes "length d = 2 ^ 31"
  shows "countFrequencyParallel d 1 = Inr Map.empty"
proof -
  have n: "int (length d) = 2 ^ 31" using assms by simp
  have range: "count_range d 0 f Map.empty = Inr Map.empty" if "f \<le> 0" for f
    using that by (subst count_range.simps) simp
  have merge: "merge_into Map.empty Map.empty = (Map.empty :: freq_map)"
    by (simp add: merge_into_def)
  have last: "count_workers d 1 s 1 Map.empty = Inr Map.empty" for s
    by (subst count_workers.simps) simp
  have "count_workers d 1 (- (2 ^ 31)) 0 Map.empty = Inr Map.empty"
    by (subst count_workers.simps)
       (simp add: n int32_wrap int32_zero countFrequencyThread_def range merge last)
  then show ?thesis
    by (simp add: countFrequencyParallel_def slice_of_def n int32_wrap)
qed

theorem parallel_count_counterexample:
  "countFrequencyParallel (replicate (2 ^ 30) CHR ''a'' @ replicate (2 ^ 30) CHR ''b'') 1
     \<noteq> Inr (countFrequencySingle
              (replicate (2 ^ 30) CHR ''a'' @ replicate (2 ^ 30) CHR ''b'') Map.empty)"
proof -
  let ?d = "replicate (2 ^ 30) CHR ''a'' @ replicate (2 ^ 30) CHR ''b''"
  have "length ?d = 2 ^ 31" by simp
  then have par: "countFrequencyParallel ?d 1 = Inr Map.empty"
    by (rule parallel_count_two_gib)
  have "CHR ''a'' \<in> dom (countFrequencySingle ?d Map.empty)"
    unfolding dom_countFrequencySingle by simp
  then have "countFrequencySingle ?d Map.empty \<noteq> Map.empty"
    by (metis dom_empty empty_iff)
  with par show ?thesis by simp
qed

section \<open>The code table\<close>

lemma store_pair: "store (c, p) m = m(c \<mapsto> p)"
  by (simp add: store_def)

lemma createHuffmanCodes_fold:
  "createHuffmanCodes t cur m = fold store (leaf_codes t cur) m"
  by (induction t cur m rule: createHuffmanCodes.induct) (simp_all add: Let_def store_pair)

lemma fold_store_Some:
  "fold store xs m c = Some p \<Longrightarrow> (c, p) \<in> set xs \<or> m c = Some p"
proof (induction xs arbitrary: m)
  case Nil
  then show ?case by simp
next
  case (Cons x xs)
  from Cons.prems have "fold store xs (store x m) c = Some p" by simp
  then have "(c, p) \<in> set xs \<or> store x m c = Some p" by (rule Cons.IH)
  then show ?case by (cases x) (auto simp: store_pair split: if_splits)
qed

lemma createHuffmanCodes_in_leaf_codes:
  "createHuffmanCodes t cur Map.empty c = Some p \<Longrightarrow> (c, p) \<in> set (leaf_codes t cur)"
  using fold_store_Some[of "leaf_codes t cur" Map.empty c p] by (simp add: createHuffmanCodes_fold)

lemma leaf_codes_prefix: "(c, p) \<in> set (leaf_codes t cur) \<Longrightarrow> prefix cur p"
proof (induction t cur rule: leaf_codes.induct)
  case (1 cur)
  then show ?case by simp
next
  case (2 ch fr l r cur)
  from "2.prems" consider "p = cur" | "(c, p) \<in> set (leaf_codes l (cur @ ''0''))"
    | "(c, p) \<in> set (leaf_codes r (cur @ ''1''))"
    by (auto split: if_splits)
  then show ?case
  proof cases
    case 1 then show ?thesis by simp
  next
    case 2 then show ?thesis using "2.IH"(1) by (meson append_prefixD)
  next
    case 3 then show ?thesis using "2.IH"(2) by (meson append_prefixD)
  qed
qed

lemma sibling_paths_apart:
  "prefix (cur @ ''0'') p \<Longrightarrow> prefix (cur @ ''1'') q \<Longrightarrow> \<not> prefix p q"
proof
  assume a: "prefix (cur @ ''0'') p" and b: "prefix (cur @ ''1'') q" and c: "prefix p q"
  from a c have "prefix (cur @ ''0'') q" by (rule prefix_order.trans)
  with b show False by (auto simp: prefix_def)
qed

lemma sibling_paths_apart':
  "prefix (cur @ ''1'') p \<Longrightarrow> prefix (cur @ ''0'') q \<Longrightarrow> \<not> prefix p q"
proof
  assume a: "prefix (cur @ ''1'') p" and b: "prefix (cur @ ''0'') q" and c: "prefix p q"
  from a c have "prefix (cur @ ''1'') q" by (rule prefix_order.trans)
  with b show False by (auto simp: prefix_def)
qed

lemma leaf_codes_prefix_free:
  "(c1, p1) \<in> set (leaf_codes t cur) \<Longrightarrow> (c2, p2) \<in> set (leaf_codes t cur) \<Longrightarrow>
   prefix p1 p2 \<Longrightarrow> c1 = c2 \<and> p1 = p2"
proof (induction t cur rule: leaf_codes.induct)
  case (1 cur)
  then show ?case by simp
next
  case (2 ch fr l r cur)
  show ?case
  proof (cases "l = None \<and> r = None")
    case True
    with "2.prems" show ?thesis by simp
  next
    case False
    let ?L = "set (leaf_codes l (cur @ ''0''))" and ?R = "set (leaf_codes r (cur @ ''1''))"
    from False "2.prems"(1) have m1: "(c1, p1) \<in> ?L \<or> (c1, p1) \<in> ?R" by auto
    from False "2.prems"(2) have m2: "(c2, p2) \<in> ?L \<or> (c2, p2) \<in> ?R" by auto
    from m1 m2 consider
        "(c1, p1) \<in> ?L" "(c2, p2) \<in> ?L" | "(c1, p1) \<in> ?R" "(c2, p2) \<in> ?R"
      | "(c1, p1) \<in> ?L" "(c2, p2) \<in> ?R" | "(c1, p1) \<in> ?R" "(c2, p2) \<in> ?L"
      by blast
    then show ?thesis
    proof cases
      case 1 then show ?thesis using "2.IH"(1) "2.prems"(3) by blast
    next
      case 2 then show ?thesis using "2.IH"(2) "2.prems"(3) by blast
    next
      case 3
      then show ?thesis
        using sibling_paths_apart[of cur p1 p2] leaf_codes_prefix "2.prems"(3) by blast
    next
      case 4
      then show ?thesis
        using sibling_paths_apart'[of cur p1 p2] leaf_codes_prefix "2.prems"(3) by blast
    qed
  qed
qed

text \<open>
  C8.  In the code table that \<^verbatim>\<open>createHuffmanCodes\<close> derives from any tree, started with the
  empty path and the empty table, the code of one byte value is never a prefix of the code of
  another byte value.
\<close>

theorem codes_prefix_free:
  assumes "createHuffmanCodes rootNode [] Map.empty c1 = Some p1"
    and "createHuffmanCodes rootNode [] Map.empty c2 = Some p2"
    and "c1 \<noteq> c2"
  shows "\<not> prefix p1 p2"
  using assms leaf_codes_prefix_free[of c1 p1 rootNode "[]" c2 p2]
    createHuffmanCodes_in_leaf_codes by blast

theorem codes_prefix_free_witness:
  "createHuffmanCodes (Some example_tree) [] Map.empty CHR ''a'' = Some ''00'' \<and>
   createHuffmanCodes (Some example_tree) [] Map.empty CHR ''c'' = Some ''1'' \<and>
   CHR ''a'' \<noteq> CHR ''c'' \<and> \<not> prefix ''00'' ''1''"
  using codes_prefix_free[of "Some example_tree" "CHR ''a''" "''00''" "CHR ''c''" "''1''"]
  by (simp add: example_tree_def new_node_def)

section \<open>The length of the encoding\<close>

lemma huffmanEncode_concat: "huffmanEncode data t = concat (map (code_of t) data)"
  by (induction data) simp_all

text \<open>
  C9.  For every buffer and every code table that has an entry for each of its bytes, the
  length of what \<^verbatim>\<open>huffmanEncode\<close> returns is the sum, over the byte values of the buffer,
  of the number of occurrences of the byte times the length of its code.
\<close>

theorem encoded_length:
  assumes "set data \<subseteq> dom codeTable"
  shows "length (huffmanEncode data codeTable)
           = (\<Sum>c\<in>set data. count_list data c * length (the (codeTable c)))"
proof -
  have "length (huffmanEncode data codeTable)
          = sum_list (map (\<lambda>c. length (code_of codeTable c)) data)"
    by (simp add: huffmanEncode_concat length_concat comp_def)
  also have "\<dots> = (\<Sum>c\<in>set data. count_list data c * length (code_of codeTable c))"
    by (rule sum_list_map_eq_sum_count)
  also have "\<dots> = (\<Sum>c\<in>set data. count_list data c * length (the (codeTable c)))"
  proof (rule sum.cong)
    fix c assume "c \<in> set data"
    with assms obtain p where "codeTable c = Some p" by blast
    then show "count_list data c * length (code_of codeTable c)
                 = count_list data c * length (the (codeTable c))"
      by (simp add: code_of_def)
  qed simp
  finally show ?thesis .
qed

theorem encoded_length_witness:
  "set ''ccccabb'' \<subseteq> dom (createHuffmanCodes (Some example_tree) [] Map.empty) \<and>
   length (huffmanEncode ''ccccabb'' (createHuffmanCodes (Some example_tree) [] Map.empty))
     = (\<Sum>c\<in>set ''ccccabb''. count_list ''ccccabb'' c
          * length (the (createHuffmanCodes (Some example_tree) [] Map.empty c)))"
  using encoded_length[of "''ccccabb''" "createHuffmanCodes (Some example_tree) [] Map.empty"]
  by (simp add: example_tree_def new_node_def)

section \<open>Writing and reading back a tree\<close>

lemma readHuffmanTree_write:
  "strict t \<Longrightarrow> readHuffmanTree (writeHuffmanTree (Some t) @ rest) = Inr (skeleton t, rest)"
proof (induction t arbitrary: rest rule: strict.induct)
  case (1 ch fr)
  show ?case by (simp add: readHuffmanTree.simps new_node_def)
next
  case (2 ch fr l r)
  then have l: "readHuffmanTree (writeHuffmanTree (Some l) @ writeHuffmanTree (Some r) @ rest)
                  = Inr (skeleton l, writeHuffmanTree (Some r) @ rest)"
    and r: "readHuffmanTree (writeHuffmanTree (Some r) @ rest) = Inr (skeleton r, rest)"
    by simp_all
  show ?case by (simp add: readHuffmanTree.simps l r)
next
  case (3 ch fr r)
  then show ?case by simp
next
  case (4 ch fr l)
  then show ?case by simp
qed


lemma same_shape_skeleton: "strict t \<Longrightarrow> same_shape t (skeleton t)"
  by (induction t rule: strict.induct) simp_all

text \<open>
  C7.  For every strict tree, \<^verbatim>\<open>readHuffmanTree\<close> on what \<^verbatim>\<open>writeHuffmanTree\<close> wrote returns
  a tree of the same shape with the same characters at its leaves, and leaves exactly the
  characters that follow the tree in the stream: no count or length is needed to find where
  the tree ends.  The tree returned is \<open>skeleton t\<close>: the frequencies, which are not written,
  come back as 0.
\<close>

theorem read_write_tree:
  assumes "strict t"
  shows "readHuffmanTree (writeHuffmanTree (Some t) @ rest) = Inr (skeleton t, rest) \<and>
         same_shape t (skeleton t)"
proof
  show "readHuffmanTree (writeHuffmanTree (Some t) @ rest) = Inr (skeleton t, rest)"
    using assms by (rule readHuffmanTree_write)
  show "same_shape t (skeleton t)"
    using assms by (rule same_shape_skeleton)
qed

theorem read_write_tree_witness:
  "strict example_tree \<and>
   readHuffmanTree (writeHuffmanTree (Some example_tree) @ ''1111000101'')
     = Inr (skeleton example_tree, ''1111000101'') \<and>
   same_shape example_tree (skeleton example_tree)"
proof -
  have "strict example_tree" by (simp add: example_tree_def new_node_def)
  with read_write_tree[of example_tree "''1111000101''"] show ?thesis by simp
qed

section \<open>The characters of the bit text\<close>

lemma as_bit_zero: "as_bit c = CHR ''0'' \<longleftrightarrow> c = CHR ''0''"
  by (simp add: as_bit_def)

lemma decode_loop_as_bit:
  "decode_loop root cur (map as_bit payload) res = decode_loop root cur payload res"
  by (induction payload arbitrary: cur res) (simp_all add: as_bit_zero split: option.splits)

lemma string_at_as_bit:
  "string_at (map as_bit e) i =
     (case string_at e i of Inl err \<Rightarrow> Inl err
      | Inr c \<Rightarrow> Inr (if 0 \<le> i \<and> i < int (length e) then as_bit c else c))"
proof (cases "0 \<le> i \<and> i < int (length e)")
  case True
  then have "nat i < length e" by linarith
  with True show ?thesis by (simp add: string_at_def)
next
  case False
  then show ?thesis by (auto simp: string_at_def)
qed

lemma threaded_loop_as_bit:
  "threaded_loop (map as_bit e) root cur i f res = threaded_loop e root cur i f res"
proof (induction e root cur i f res rule: threaded_loop.induct)
  case (1 e root cur i f res)
  show ?case
  proof (cases "i < f")
    case False
    then show ?thesis by (simp add: threaded_loop.simps)
  next
    case True
    show ?thesis
    proof (cases "string_at e i")
      case (Inl err)
      then show ?thesis using True
        by (simp add: threaded_loop.simps[of _ _ _ i] string_at_as_bit)
    next
      case (Inr c)
      let ?c' = "if 0 \<le> i \<and> i < int (length e) then as_bit c else c"
      have c': "string_at (map as_bit e) i = Inr ?c'" by (simp add: string_at_as_bit Inr)
      have same: "(?c' = CHR ''0'') = (c = CHR ''0'')" by (simp add: as_bit_zero)
      show ?thesis
      proof (cases "if c = CHR ''0'' then leftChild cur else rightChild cur")
        case None
        then show ?thesis using True Inr c' same
          by (simp add: threaded_loop.simps[of _ _ _ i])
      next
        case (Some nxt)
        show ?thesis
          using True Inr c' same Some "1.IH"(1)[OF True Inr Some] "1.IH"(2)[OF True Inr Some]
          by (simp add: threaded_loop.simps[of _ _ _ i])
      qed
    qed
  qed
qed

lemma strict_children:
  "strict n \<Longrightarrow> \<not> is_leaf n \<Longrightarrow>
   \<exists>l r. leftChild n = Some l \<and> rightChild n = Some r \<and> strict l \<and> strict r"
  by (induction n rule: strict.induct) (simp_all add: is_leaf_def)

lemma decode_loop_total:
  "strict root \<Longrightarrow> \<not> is_leaf root \<Longrightarrow> strict cur \<Longrightarrow> \<not> is_leaf cur \<Longrightarrow>
   \<exists>out. decode_loop root cur payload res = Inr out"
proof (induction payload arbitrary: cur res)
  case Nil
  show ?case by simp
next
  case (Cons b payload)
  from strict_children[OF Cons.prems(3,4)] obtain l r where
    ch: "leftChild cur = Some l" "rightChild cur = Some r" "strict l" "strict r" by blast
  let ?nxt = "if b = CHR ''0'' then l else r"
  have nxt: "(if b = CHR ''0'' then leftChild cur else rightChild cur) = Some ?nxt"
    using ch by simp
  have sn: "strict ?nxt" using ch by simp
  show ?case
  proof (cases "is_leaf ?nxt")
    case True
    then show ?thesis
      using Cons.IH[OF Cons.prems(1,2) Cons.prems(1,2)] ch
      by (auto simp: is_leaf_def)
  next
    case False
    then show ?thesis
      using Cons.IH[OF Cons.prems(1,2) sn False] ch
      by (auto simp: is_leaf_def)
  qed
qed

lemma threaded_loop_eq:
  "0 \<le> i \<Longrightarrow> i \<le> f \<Longrightarrow> f \<le> int (length e) \<Longrightarrow>
   threaded_loop e root cur i f res
     = decode_loop root cur (take (nat (f - i)) (drop (nat i) e)) res"
proof (induction e root cur i f res rule: threaded_loop.induct)
  case (1 e root cur i f res)
  show ?case
  proof (cases "i < f")
    case False
    with "1.prems" show ?thesis by (simp add: threaded_loop.simps)
  next
    case True
    with "1.prems" have at: "string_at e i = Inr (e ! nat i)"
      by (simp add: string_at_def)
    from True "1.prems" have lt: "nat i < length e" by linarith
    have split: "take (nat (f - i)) (drop (nat i) e)
                   = e ! nat i # take (nat (f - (i + 1))) (drop (nat (i + 1)) e)"
    proof -
      have "drop (nat i) e = e ! nat i # drop (Suc (nat i)) e"
        using lt by (simp add: Cons_nth_drop_Suc)
      moreover have "nat (f - i) = Suc (nat (f - (i + 1)))" using True by linarith
      moreover have "nat (i + 1) = Suc (nat i)" using "1.prems"(1) by linarith
      ultimately show ?thesis by simp
    qed
    show ?thesis
    proof (cases "if e ! nat i = CHR ''0'' then leftChild cur else rightChild cur")
      case None
      then show ?thesis using True at
        by (simp add: threaded_loop.simps[of _ _ _ i] split)
    next
      case (Some nxt)
      have bounds: "0 \<le> i + 1" "i + 1 \<le> f" using True "1.prems" by simp_all
      show ?thesis
        using True at Some "1.prems"(3)
          "1.IH"(1)[OF True at Some _ bounds "1.prems"(3)]
          "1.IH"(2)[OF True at Some _ bounds "1.prems"(3)]
        by (simp add: threaded_loop.simps[of _ _ _ i] split)
    qed
  qed
qed

section \<open>Decoding what was encoded\<close>

lemma leaf_codes_leaf:
  "is_leaf t \<Longrightarrow> leaf_codes (Some t) cur = [(character t, cur)]"
  by (cases t) (simp add: is_leaf_def)

lemma leaf_codes_inner:
  "\<not> is_leaf t \<Longrightarrow>
   leaf_codes (Some t) cur = leaf_codes (leftChild t) (cur @ ''0'') @ leaf_codes (rightChild t) (cur @ ''1'')"
  by (cases t) (auto simp add: is_leaf_def)

text \<open>Following the code of a leaf from the node where the code was started.\<close>

lemma decode_leaf_code:
  "(c, p) \<in> set (leaf_codes (Some t) cur) \<Longrightarrow> \<not> is_leaf t \<Longrightarrow>
   \<exists>q. p = cur @ q \<and> q \<noteq> [] \<and>
       (\<forall>rest res. decode_loop root t (q @ rest) res = decode_loop root root rest (res @ [c])) \<and>
       (\<forall>q'. strict_prefix q' q \<longrightarrow> decode_loop root t q' res' = Inr res')"
proof (induction t arbitrary: cur res')
  case (HuffmanNode ch fr l r)
  let ?t = "HuffmanNode ch fr l r"
  from HuffmanNode.prems(1,2) have
    mem: "(c, p) \<in> set (leaf_codes l (cur @ ''0'')) \<or> (c, p) \<in> set (leaf_codes r (cur @ ''1''))"
    by (auto simp: is_leaf_def)
  have step: "\<exists>q. p = cur @ q \<and> q \<noteq> [] \<and>
       (\<forall>rest res. decode_loop root ?t (q @ rest) res = decode_loop root root rest (res @ [c])) \<and>
       (\<forall>q'. strict_prefix q' q \<longrightarrow> decode_loop root ?t q' res' = Inr res')"
    if sub: "(c, p) \<in> set (leaf_codes (Some n) (cur @ [b]))"
      and child: "(if b = CHR ''0'' then l else r) = Some n"
      and IH: "\<And>cur res'. (c, p) \<in> set (leaf_codes (Some n) cur) \<Longrightarrow> \<not> is_leaf n \<Longrightarrow>
         \<exists>q. p = cur @ q \<and> q \<noteq> [] \<and>
           (\<forall>rest res. decode_loop root n (q @ rest) res = decode_loop root root rest (res @ [c])) \<and>
           (\<forall>q'. strict_prefix q' q \<longrightarrow> decode_loop root n q' res' = Inr res')"
    for n b
  proof (cases "is_leaf n")
    case True
    with sub have "c = character n" "p = cur @ [b]" by (simp_all add: leaf_codes_leaf)
    moreover have "decode_loop root ?t ([b] @ rest) res = decode_loop root root rest (res @ [c])"
      for rest res
      using True child \<open>c = character n\<close> by (auto simp: is_leaf_def split: if_splits)
    moreover have "decode_loop root ?t q' res' = Inr res'" if "strict_prefix q' [b]" for q'
    proof -
      from that have "q' = []" by (cases q') (auto simp: strict_prefix_def)
      then show ?thesis by simp
    qed
    ultimately show ?thesis by blast
  next
    case False
    from IH[OF sub False, of res'] obtain q where
      q: "p = (cur @ [b]) @ q" "q \<noteq> []"
        "\<And>rest res. decode_loop root n (q @ rest) res = decode_loop root root rest (res @ [c])"
        "\<And>q'. strict_prefix q' q \<Longrightarrow> decode_loop root n q' res' = Inr res'"
      by blast
    have "decode_loop root ?t ((b # q) @ rest) res = decode_loop root root rest (res @ [c])"
      for rest res
      using False child q(3) by (auto simp: is_leaf_def split: if_splits)
    moreover have "decode_loop root ?t q' res' = Inr res'" if "strict_prefix q' (b # q)" for q'
    proof (cases q')
      case Nil
      then show ?thesis by simp
    next
      case (Cons x xs)
      with that have "x = b" "strict_prefix xs q" by (auto simp: strict_prefix_def)
      then show ?thesis using False child q(4)[of xs] Cons
        by (auto simp: is_leaf_def split: if_splits)
    qed
    ultimately show ?thesis using q(1) by auto
  qed
  from mem show ?case
  proof
    assume m: "(c, p) \<in> set (leaf_codes l (cur @ ''0''))"
    then obtain n where n: "l = Some n" by (cases l) auto
    show ?thesis
      using step[of n "CHR ''0''"] m n HuffmanNode.IH(1)[of n] by simp
  next
    assume m: "(c, p) \<in> set (leaf_codes r (cur @ ''1''))"
    then obtain n where n: "r = Some n" by (cases r) auto
    show ?thesis
      using step[of n "CHR ''1''"] m n HuffmanNode.IH(2)[of n] by simp
  qed
qed


lemma decode_code:
  assumes "\<not> is_leaf root" and "createHuffmanCodes (Some root) [] Map.empty c = Some p"
  shows "p \<noteq> []"
    and "decode_loop root root (p @ rest) res = decode_loop root root rest (res @ [c])"
    and "strict_prefix q' p \<Longrightarrow> decode_loop root root q' res' = Inr res'"
proof -
  from assms(2) have "(c, p) \<in> set (leaf_codes (Some root) [])"
    by (rule createHuffmanCodes_in_leaf_codes)
  from decode_leaf_code[OF this assms(1), of root res'] obtain q where
    q: "p = q" "q \<noteq> []"
      "\<And>rest res. decode_loop root root (q @ rest) res = decode_loop root root rest (res @ [c])"
      "\<And>q'. strict_prefix q' q \<Longrightarrow> decode_loop root root q' res' = Inr res'"
    by auto
  show "p \<noteq> []" using q by simp
  show "decode_loop root root (p @ rest) res = decode_loop root root rest (res @ [c])"
    using q by simp
  show "strict_prefix q' p \<Longrightarrow> decode_loop root root q' res' = Inr res'"
    using q by simp
qed

lemma decode_loop_encode:
  assumes "\<not> is_leaf root" and "codes = createHuffmanCodes (Some root) [] Map.empty"
  shows "set data \<subseteq> dom codes \<Longrightarrow>
         decode_loop root root (huffmanEncode data codes @ rest) res
           = decode_loop root root rest (res @ data)"
proof (induction data arbitrary: res)
  case Nil
  show ?case by simp
next
  case (Cons c data)
  from Cons.prems obtain p where p: "codes c = Some p" by auto
  then have "decode_loop root root (p @ huffmanEncode data codes @ rest) res
               = decode_loop root root (huffmanEncode data codes @ rest) (res @ [c])"
    using decode_code(2)[OF assms(1)] assms(2) by simp
  also have "\<dots> = decode_loop root root rest ((res @ [c]) @ data)"
    using Cons.IH Cons.prems by simp
  finally show ?case using p by (simp add: code_of_def)
qed

lemma decode_encode:
  assumes "\<not> is_leaf root" and "set data \<subseteq> dom (createHuffmanCodes (Some root) [] Map.empty)"
  shows "huffmanDecode root (huffmanEncode data (createHuffmanCodes (Some root) [] Map.empty))
           = Inr data"
  using decode_loop_encode[OF assms(1) refl assms(2), of "[]" "[]"]
  by (simp add: huffmanDecode_def)

lemma huffmanEncode_append:
  "huffmanEncode (xs @ ys) t = huffmanEncode xs t @ huffmanEncode ys t"
  by (induction xs) simp_all

lemma huffmanDecode_truncated:
  assumes "\<not> is_leaf root"
    and "set data \<subseteq> dom (createHuffmanCodes (Some root) [] Map.empty)"
    and "data \<noteq> []"
  shows "huffmanDecode root
           (butlast (huffmanEncode data (createHuffmanCodes (Some root) [] Map.empty)))
         = Inr (butlast data)"
proof -
  let ?codes = "createHuffmanCodes (Some root) [] Map.empty"
  from assms(3) have data: "data = butlast data @ [last data]" by simp
  from assms(2,3) obtain p where p: "?codes (last data) = Some p"
    by (metis domD last_in_set subsetD)
  have pne: "p \<noteq> []" using decode_code(1)[OF assms(1) p] .
  have "huffmanEncode data ?codes = huffmanEncode (butlast data) ?codes @ p"
    using p by (subst data) (simp add: huffmanEncode_append code_of_def)
  then have trunc: "butlast (huffmanEncode data ?codes)
                      = huffmanEncode (butlast data) ?codes @ butlast p"
    using pne by (simp add: butlast_append)
  have sub: "set (butlast data) \<subseteq> dom ?codes"
    using assms(2) by (meson in_set_butlastD subset_iff)
  have "strict_prefix (butlast p) p"
    using pne by (metis append_butlast_last_id not_Cons_self2 prefixI self_append_conv strict_prefix_def)
  then have "decode_loop root root (butlast p) (butlast data) = Inr (butlast data)"
    by (rule decode_code(3)[OF assms(1) p])
  then show ?thesis
    unfolding huffmanDecode_def trunc
    using decode_loop_encode[OF assms(1) refl sub, of "butlast p" "[]"] by simp
qed

section \<open>The tree that the merge loop builds\<close>

lemma keys_of_distinct: "distinct (keys_of m)"
  by (simp add: keys_of_def enum_distinct)

lemma set_keys_of: "set (keys_of m) = dom m"
  by (auto simp: keys_of_def enum_UNIV dom_def)

lemma foldl_push: "foldl (\<lambda>h c. pq_push (f c) h) acc xs = acc @ map f xs"
  by (induction xs arbitrary: acc) (simp_all add: pq_push_def)

lemma seed_heap_map: "seed_heap m = map (\<lambda>c. new_node c (lookup0 m c)) (keys_of m)"
  by (simp add: seed_heap_def foldl_push)

lemma forest_leaves_seed: "forest_leaves (map (\<lambda>c. new_node c (f c)) ks) = mset ks"
  by (induction ks) (simp_all add: forest_leaves_def new_node_def)

lemma pq_pop_mset:
  assumes "h \<noteq> []"
  shows "mset h = add_mset (h ! top_position tie h) (mset (pq_pop tie h))"
proof -
  let ?i = "top_position tie h"
  have "?i < length h" using assms by (rule top_position_less)
  then have "h = take ?i h @ h ! ?i # drop (Suc ?i) h" by (rule id_take_nth_drop)
  then have "mset h = mset (take ?i h @ h ! ?i # drop (Suc ?i) h)" by simp
  then show ?thesis by (simp add: pq_pop_def)
qed

lemma merge_step:
  fixes tie :: tie_break and h :: "HuffmanNode list"
  assumes "1 < length h"
  defines "left \<equiv> h ! top_position tie h"
  defines "heap1 \<equiv> pq_pop tie h"
  defines "right \<equiv> heap1 ! top_position tie heap1"
  defines "heap2 \<equiv> pq_pop tie heap1"
  shows "mset h = add_mset left (add_mset right (mset heap2))"
    and "length heap2 = length h - 2"
proof -
  from assms(1) have h: "h \<noteq> []" by auto
  then have l1: "length heap1 = length h - 1" unfolding heap1_def by (rule length_pq_pop)
  with assms(1) have h1: "heap1 \<noteq> []" by auto
  have "mset h = add_mset left (mset heap1)"
    unfolding left_def heap1_def using h by (rule pq_pop_mset)
  moreover have "mset heap1 = add_mset right (mset heap2)"
    unfolding right_def heap2_def using h1 by (rule pq_pop_mset)
  ultimately show "mset h = add_mset left (add_mset right (mset heap2))" by simp
  show "length heap2 = length h - 2"
    unfolding heap2_def using length_pq_pop[OF h1] l1 by simp
qed

lemma merge_loop_result:
  "h \<noteq> [] \<Longrightarrow> \<forall>t\<in>set h. strict t \<Longrightarrow>
   \<exists>root. merge_loop tie h = [root] \<and> strict root \<and>
          mset (leaf_chars (Some root)) = forest_leaves h \<and>
          (2 \<le> length h \<longrightarrow> \<not> is_leaf root)"
proof (induction tie h rule: merge_loop.induct)
  case (1 tie h)
  show ?case
  proof (cases "1 < length h")
    case False
    with "1.prems"(1) obtain x where x: "h = [x]"
      by (cases h) auto
    have "merge_loop tie [x] = [x]" by (subst merge_loop.simps) simp
    then show ?thesis using x "1.prems"(2) by (simp add: forest_leaves_def)
  next
    case True
    define left where "left = h ! top_position tie h"
    define heap1 where "heap1 = pq_pop tie h"
    define right where "right = heap1 ! top_position tie heap1"
    define heap2 where "heap2 = pq_pop tie heap1"
    define merged where "merged = HuffmanNode (CHR 0x00) (int32 (frequency left + frequency right))
                        (Some left) (Some right)"
    have ms: "mset h = add_mset left (add_mset right (mset heap2))"
      and len: "length heap2 = length h - 2"
      using merge_step[OF True, of tie]
      unfolding left_def heap1_def right_def heap2_def by simp_all
    have unfold: "merge_loop tie h = merge_loop tie (pq_push merged heap2)"
      using True
      by (subst merge_loop.simps)
         (simp add: Let_def left_def heap1_def right_def heap2_def merged_def)
    from ms have sets: "set h = insert left (insert right (set heap2))"
      by (metis set_mset_add_mset_insert set_mset_mset)
    then have sl: "strict left" and sr: "strict right" and s2: "\<forall>t\<in>set heap2. strict t"
      using "1.prems"(2) by auto
    have sm: "strict merged" using sl sr by (simp add: merged_def)
    have prem2: "\<forall>t\<in>set (pq_push merged heap2). strict t"
      using sm s2 by (simp add: pq_push_def)
    have ne: "pq_push merged heap2 \<noteq> []" by (simp add: pq_push_def)
    have leaves: "forest_leaves (pq_push merged heap2) = forest_leaves h"
      by (simp add: forest_leaves_def pq_push_def ms merged_def)
    from "1.IH"[OF True left_def heap1_def right_def heap2_def merged_def ne prem2]
    obtain root where root: "merge_loop tie (pq_push merged heap2) = [root]" "strict root"
      "mset (leaf_chars (Some root)) = forest_leaves (pq_push merged heap2)"
      "2 \<le> length (pq_push merged heap2) \<longrightarrow> \<not> is_leaf root"
      by blast
    have "\<not> is_leaf root"
    proof (cases "2 \<le> length (pq_push merged heap2)")
      case True
      with root(4) show ?thesis by simp
    next
      case False
      then have "heap2 = []" by (cases heap2) (simp_all add: pq_push_def)
      then have "merge_loop tie (pq_push merged heap2) = [merged]"
        by (subst merge_loop.simps) (simp add: pq_push_def)
      with root(1) have "root = merged" by simp
      then show ?thesis by (simp add: merged_def is_leaf_def)
    qed
    with root unfold leaves show ?thesis by simp
  qed
qed

lemma merge_loop_empty: "merge_loop tie [] = []"
  by (subst merge_loop.simps) simp

lemma pq_top_single: "pq_top tie [x] = Inr x"
proof -
  have "top_position tie [x] < length [x]" by (rule top_position_less) simp
  then show ?thesis by (simp add: pq_top_def)
qed

section \<open>Decoding in ranges\<close>

lemma leaf_codes_fst: "map fst (leaf_codes t cur) = leaf_chars t"
  by (induction t cur rule: leaf_codes.induct) simp_all

lemma fold_store_notin: "c \<notin> fst ` set xs \<Longrightarrow> fold store xs m c = m c"
  by (induction xs arbitrary: m) (auto simp: store_def)

lemma fold_store_distinct:
  "distinct (map fst xs) \<Longrightarrow> (c, p) \<in> set xs \<Longrightarrow> fold store xs m c = Some p"
proof (induction xs arbitrary: m)
  case Nil
  then show ?case by simp
next
  case (Cons x xs)
  show ?case
  proof (cases "x = (c, p)")
    case True
    with Cons.prems(1) have "c \<notin> fst ` set xs" by auto
    then show ?thesis using True by (simp add: fold_store_notin store_pair)
  next
    case False
    with Cons.prems show ?thesis using Cons.IH by simp
  qed
qed

lemma dom_fold_store: "dom (fold store xs m) = dom m \<union> fst ` set xs"
  by (induction xs arbitrary: m) (auto simp: store_def)

lemma dom_createHuffmanCodes: "dom (createHuffmanCodes t cur m) = dom m \<union> set (leaf_chars t)"
proof -
  have "fst ` set (leaf_codes t cur) = set (map fst (leaf_codes t cur))" by simp
  then show ?thesis by (simp add: createHuffmanCodes_fold dom_fold_store leaf_codes_fst)
qed

lemma code_of_leaf:
  assumes "distinct (leaf_chars t)" and "(c, p) \<in> set (leaf_codes t cur)"
  shows "createHuffmanCodes t cur Map.empty c = Some p"
  using assms by (simp add: createHuffmanCodes_fold fold_store_distinct leaf_codes_fst)

lemma descend_append:
  "descend n (p @ q) = (case descend n p of None \<Rightarrow> None | Some m \<Rightarrow> descend m q)"
  by (induction p arbitrary: n) (simp_all split: option.splits)

lemma descend_leaf_code:
  "descend t q = Some n \<Longrightarrow> is_leaf n \<Longrightarrow> bits q \<Longrightarrow>
   (character n, cur @ q) \<in> set (leaf_codes (Some t) cur)"
proof (induction q arbitrary: t cur)
  case Nil
  then show ?case by (simp add: leaf_codes_leaf)
next
  case (Cons b q)
  from Cons.prems(1) obtain m where
    m: "(if b = CHR ''0'' then leftChild t else rightChild t) = Some m" and
    d: "descend m q = Some n"
    by (auto split: option.splits)
  from m have inner: "\<not> is_leaf t" by (auto simp: is_leaf_def split: if_splits)
  from Cons.prems(3) have b: "b = CHR ''0'' \<or> b = CHR ''1''" and q: "bits q"
    by (simp_all add: bits_def)
  have "(character n, (cur @ [b]) @ q) \<in> set (leaf_codes (Some m) (cur @ [b]))"
    using Cons.IH[OF d Cons.prems(2) q] .
  then show ?case
    using m b by (auto simp: leaf_codes_inner[OF inner] split: if_splits)
qed

text \<open>What a decode run has read: the codes of what it returned, then the path to where it stands.\<close>

lemma decode_loop_inverse:
  assumes root: "\<not> is_leaf root" and dist: "distinct (leaf_chars (Some root))"
    and codes: "codes = createHuffmanCodes (Some root) [] Map.empty"
  shows "descend root pre = Some cur \<Longrightarrow> \<not> is_leaf cur \<Longrightarrow> bits pre \<Longrightarrow> bits seg \<Longrightarrow>
         decode_loop root cur seg res = Inr out \<Longrightarrow>
         \<exists>em tl. out = res @ em \<and> pre @ seg = huffmanEncode em codes @ tl"
proof (induction seg arbitrary: pre cur res)
  case Nil
  then have "out = res @ [] \<and> pre @ [] = huffmanEncode [] codes @ pre" by simp
  then show ?case by blast
next
  case (Cons b seg)
  from Cons.prems(4) have b: "b = CHR ''0'' \<or> b = CHR ''1''" and seg: "bits seg"
    by (simp_all add: bits_def)
  from Cons.prems(5) obtain nxt where
    nxt: "(if b = CHR ''0'' then leftChild cur else rightChild cur) = Some nxt"
    by (auto split: option.splits)
  have d: "descend root (pre @ [b]) = Some nxt"
    using Cons.prems(1) nxt by (simp add: descend_append)
  have pb: "bits (pre @ [b])" using Cons.prems(3) b by (simp add: bits_def)
  show ?case
  proof (cases "is_leaf nxt")
    case True
    have "(character nxt, [] @ (pre @ [b])) \<in> set (leaf_codes (Some root) [])"
      using descend_leaf_code[OF d True pb] .
    then have code: "codes (character nxt) = Some (pre @ [b])"
      using code_of_leaf[OF dist] codes by simp
    from Cons.prems(5) nxt True
    have "decode_loop root root seg (res @ [character nxt]) = Inr out"
      by (auto simp: is_leaf_def split: if_splits)
    from Cons.IH[OF _ root _ seg this, of "[]"] obtain em tl where
      "out = (res @ [character nxt]) @ em" "seg = huffmanEncode em codes @ tl"
      by (auto simp: bits_def)
    then have "out = res @ (character nxt # em) \<and>
               pre @ b # seg = huffmanEncode (character nxt # em) codes @ tl"
      using code by (simp add: code_of_def)
    then show ?thesis by blast
  next
    case False
    from Cons.prems(5) nxt False have "decode_loop root nxt seg res = Inr out"
      by (auto simp: is_leaf_def split: if_splits)
    from Cons.IH[OF d False pb seg this] show ?thesis by simp
  qed
qed

lemma in_codeword_boundaries:
  "b \<in> set (codeword_boundaries data codes) \<longleftrightarrow>
     (\<exists>j\<le>length data. b = int (length (huffmanEncode (take j data) codes)))"
proof -
  have "set [0..<Suc (length data)] = {j. j \<le> length data}" by auto
  then show ?thesis
    unfolding codeword_boundaries_def set_map by blast
qed

lemma bits_append: "bits (xs @ ys) \<longleftrightarrow> bits xs \<and> bits ys"
  by (simp add: bits_def)

lemma leaf_codes_bits: "(c, p) \<in> set (leaf_codes t cur) \<Longrightarrow> bits cur \<Longrightarrow> bits p"
proof (induction t cur rule: leaf_codes.induct)
  case (1 cur)
  then show ?case by simp
next
  case (2 ch fr l r cur)
  from "2.prems"(1) consider "p = cur" | "(c, p) \<in> set (leaf_codes l (cur @ ''0''))"
    | "(c, p) \<in> set (leaf_codes r (cur @ ''1''))"
    by (auto split: if_splits)
  then show ?case
  proof cases
    case 1 then show ?thesis using "2.prems"(2) by simp
  next
    case 2 then show ?thesis using "2.IH"(1) "2.prems"(2) by (simp add: bits_def)
  next
    case 3 then show ?thesis using "2.IH"(2) "2.prems"(2) by (simp add: bits_def)
  qed
qed

lemma code_bits: "createHuffmanCodes t [] Map.empty c = Some p \<Longrightarrow> bits p"
  using createHuffmanCodes_in_leaf_codes leaf_codes_bits[of c p t "[]"] by (simp add: bits_def)

lemma huffmanEncode_bits: "bits (huffmanEncode data (createHuffmanCodes t [] Map.empty))"
proof (induction data)
  case Nil
  show ?case by (simp add: bits_def)
next
  case (Cons c data)
  have "bits (code_of (createHuffmanCodes t [] Map.empty) c)"
  proof (cases "createHuffmanCodes t [] Map.empty c")
    case None
    then show ?thesis by (simp add: code_of_def bits_def)
  next
    case (Some p)
    then show ?thesis using code_bits[of t c p] by (simp add: code_of_def)
  qed
  with Cons show ?case by (simp add: bits_append)
qed

lemma bits_take_drop: "bits e \<Longrightarrow> bits (take n (drop m e))"
  unfolding bits_def list_all_iff by (meson in_set_dropD in_set_takeD)

lemma encode_length_ge:
  assumes "\<not> is_leaf root" and "codes = createHuffmanCodes (Some root) [] Map.empty"
  shows "set xs \<subseteq> dom codes \<Longrightarrow> length xs \<le> length (huffmanEncode xs codes)"
proof (induction xs)
  case Nil
  show ?case by simp
next
  case (Cons c xs)
  from Cons.prems obtain p where p: "codes c = Some p" by auto
  then have "p \<noteq> []" using decode_code(1)[OF assms(1)] assms(2) by simp
  then have "1 \<le> length p" by (cases p) simp_all
  with Cons p show ?case by (simp add: code_of_def)
qed

lemma boundary_mono:
  assumes "\<not> is_leaf root" and "codes = createHuffmanCodes (Some root) [] Map.empty"
    and "set data \<subseteq> dom codes" and "j < j'" and "j' \<le> length data"
  shows "length (huffmanEncode (take j data) codes) < length (huffmanEncode (take j' data) codes)"
proof -
  let ?mid = "drop j (take j' data)"
  have split: "take j' data = take j data @ ?mid"
    using assms(4) by (metis append_take_drop_id less_imp_le_nat min.absorb1 take_take)
  have "set ?mid \<subseteq> dom codes"
    using assms(3) by (meson in_set_dropD in_set_takeD subset_iff)
  then have "length ?mid \<le> length (huffmanEncode ?mid codes)"
    by (rule encode_length_ge[OF assms(1,2)])
  moreover have "0 < length ?mid" using assms(4,5) by simp
  ultimately have "0 < length (huffmanEncode ?mid codes)" by linarith
  then show ?thesis by (subst split) (simp add: huffmanEncode_append)
qed

lemma threadedDecode_slice:
  "0 \<le> s \<Longrightarrow> s \<le> f \<Longrightarrow> f \<le> int (length e) \<Longrightarrow>
   threadedDecode e root s f = decode_loop root root (take (nat (f - s)) (drop (nat s) e)) []"
  by (simp add: threadedDecode_def threaded_loop_eq)

text \<open>Aligned boundaries: every worker decodes the codes of a run of whole bytes.\<close>

lemma decode_split_aligned:
  assumes root: "\<not> is_leaf root" and codes: "codes = createHuffmanCodes (Some root) [] Map.empty"
    and data: "set data \<subseteq> dom codes" and e: "e = huffmanEncode data codes"
    and n: "int (length e) < 2 ^ 31"
  shows "sorted (s # bs) \<Longrightarrow> set (s # bs) \<subseteq> set (codeword_boundaries data codes) \<Longrightarrow>
         j \<le> length data \<Longrightarrow> s = int (length (huffmanEncode (take j data) codes)) \<Longrightarrow>
         \<exists>jl. j \<le> jl \<and> jl \<le> length data \<and>
              last (s # bs) = int (length (huffmanEncode (take jl data) codes)) \<and>
              decode_split e root (s # bs) = Inr (drop j (take jl data))"
proof (induction bs arbitrary: s j)
  case Nil
  then have "j \<le> j \<and> j \<le> length data \<and>
      last [s] = int (length (huffmanEncode (take j data) codes)) \<and>
      decode_split e root [s] = Inr (drop j (take j data))" by simp
  then show ?case by blast
next
  case (Cons f bs)
  let ?enc = "\<lambda>xs. huffmanEncode xs codes"
  from Cons.prems(2) obtain j' where j': "j' \<le> length data" "f = int (length (?enc (take j' data)))"
    by (auto simp: in_codeword_boundaries)
  from Cons.prems(1) have sf: "s \<le> f" by simp
  have jj': "j \<le> j'"
  proof (rule ccontr)
    assume "\<not> j \<le> j'"
    then have "j' < j" by simp
    from boundary_mono[OF root codes data this Cons.prems(3)] have "f < s"
      using j'(2) Cons.prems(4) by simp
    with sf show False by simp
  qed
  let ?mid = "drop j (take j' data)"
  have d_split: "data = take j data @ ?mid @ drop j' data"
    using jj' by (metis append_take_drop_id append.assoc min.absorb1 take_take)
  have e_split: "e = ?enc (take j data) @ ?enc ?mid @ ?enc (drop j' data)"
    unfolding e by (subst d_split) (simp add: huffmanEncode_append)
  have take_j': "take j' data = take j data @ ?mid"
    using jj' by (metis append_take_drop_id min.absorb1 take_take)
  have f_len: "f = s + int (length (?enc ?mid))"
    unfolding j'(2) Cons.prems(4) by (subst take_j') (simp add: huffmanEncode_append)
  have seg: "take (nat (f - s)) (drop (nat s) e) = ?enc ?mid"
    unfolding e_split using f_len Cons.prems(4) by simp
  have f_le: "f \<le> int (length e)"
    unfolding e_split using f_len Cons.prems(4) by simp
  have s0: "0 \<le> s" using Cons.prems(4) by simp
  have s32: "int32 s = s" using s0 _ n by (rule int32_index) (use sf f_le in linarith)
  have f32: "int32 f = f" using _ f_le n by (rule int32_index) (use s0 sf in linarith)
  have mid_dom: "set ?mid \<subseteq> dom codes"
    using data by (meson in_set_dropD in_set_takeD subset_iff)
  have part: "threadedDecode e root s f = Inr ?mid"
    unfolding threadedDecode_slice[OF s0 sf f_le] seg
    using decode_loop_encode[OF root codes mid_dom, of "[]" "[]"] by simp
  from Cons.prems(1) have sorted': "sorted (f # bs)" by simp
  from Cons.prems(2) have sub': "set (f # bs) \<subseteq> set (codeword_boundaries data codes)" by simp
  from Cons.IH[OF sorted' sub' j'(1) j'(2)] obtain jl where
    jl: "j' \<le> jl" "jl \<le> length data"
      "last (f # bs) = int (length (?enc (take jl data)))"
      "decode_split e root (f # bs) = Inr (drop j' (take jl data))"
    by blast
  have "?mid @ drop j' (take jl data) = drop j (take jl data)"
  proof -
    have "take jl data = take j' data @ drop j' (take jl data)"
      using jl(1) by (metis append_take_drop_id min.absorb1 take_take)
    then have "drop j (take jl data) = drop j (take j' data @ drop j' (take jl data))" by simp
    also have "\<dots> = ?mid @ drop j' (take jl data)"
      using jj' j'(1) by simp
    finally show ?thesis by simp
  qed
  then have "decode_split e root (s # f # bs) = Inr (drop j (take jl data))"
    using part jl(4) by (simp add: s32 f32)
  moreover have "j \<le> jl" using jj' jl(1) by simp
  ultimately show ?case using jl(2,3) by auto
qed


text \<open>
  Any boundaries: the workers never return more than the bits of their ranges pay for, and
  they return that much only when every range ends where a code ends.
\<close>

lemma decode_split_bound:
  assumes root: "\<not> is_leaf root" and dist: "distinct (leaf_chars (Some root))"
    and codes: "codes = createHuffmanCodes (Some root) [] Map.empty"
    and e: "bits e" and n: "int (length e) < 2 ^ 31"
  shows "sorted (s # bs) \<Longrightarrow> 0 \<le> s \<Longrightarrow> last (s # bs) \<le> int (length e) \<Longrightarrow>
         decode_split e root (s # bs) = Inr out \<Longrightarrow>
         int (length (huffmanEncode out codes)) \<le> last (s # bs) - s \<and>
         (int (length (huffmanEncode out codes)) = last (s # bs) - s \<longrightarrow>
            (\<forall>b\<in>set (s # bs). \<exists>j\<le>length out.
                 b = s + int (length (huffmanEncode (take j out) codes))))"
proof (induction bs arbitrary: s out)
  case Nil
  then have "out = []" by simp
  then show ?case by simp
next
  case (Cons f bs)
  let ?enc = "\<lambda>xs. huffmanEncode xs codes"
  from Cons.prems(1) have sf: "s \<le> f" and sorted': "sorted (f # bs)" by simp_all
  have f_last: "f \<le> last (f # bs)"
    using sorted' by (metis last_in_set list.discI list.sel(1) order_refl set_ConsD sorted_simps(2))
  with Cons.prems(3) have f_le: "f \<le> int (length e)" by simp
  have s32: "int32 s = s"
    using Cons.prems(2) _ n by (rule int32_index) (use sf f_le in linarith)
  have f32: "int32 f = f"
    using _ f_le n by (rule int32_index) (use sf Cons.prems(2) in linarith)
  from Cons.prems(4) obtain part more where
    part: "threadedDecode e root s f = Inr part" and
    more: "decode_split e root (f # bs) = Inr more" and
    out: "out = part @ more"
    by (auto simp: s32 f32 split: sum.splits)
  let ?seg = "take (nat (f - s)) (drop (nat s) e)"
  have seg_len: "int (length ?seg) = f - s"
    using sf f_le Cons.prems(2) by simp
  have "decode_loop root root ?seg [] = Inr part"
    using part threadedDecode_slice[OF Cons.prems(2) sf f_le] by simp
  from decode_loop_inverse[OF root dist codes _ root _ _ this, of "[]"]
  obtain em tl where "part = [] @ em" "[] @ ?seg = ?enc em @ tl"
    using bits_take_drop[OF e] by (auto simp: bits_def)
  then have seg: "?seg = ?enc part @ tl" by simp
  have part_le: "int (length (?enc part)) \<le> f - s"
    using seg_len by (subst (asm) seg) simp
  have f0: "0 \<le> f" using sf Cons.prems(2) by simp
  have last': "last (f # bs) \<le> int (length e)" using Cons.prems(3) by simp
  from Cons.IH[OF sorted' f0 last' more] have
    more_le: "int (length (?enc more)) \<le> last (f # bs) - f" and
    more_eq: "int (length (?enc more)) = last (f # bs) - f \<Longrightarrow>
       \<forall>b\<in>set (f # bs). \<exists>j\<le>length more. b = f + int (length (?enc (take j more)))"
    by blast+
  have total: "int (length (?enc out)) = int (length (?enc part)) + int (length (?enc more))"
    by (simp add: out huffmanEncode_append)
  have last_eq: "last (s # f # bs) = last (f # bs)" by simp
  have le: "int (length (?enc out)) \<le> last (s # f # bs) - s"
    unfolding total last_eq using part_le more_le by linarith
  have al: "\<forall>b\<in>set (s # f # bs). \<exists>j\<le>length out. b = s + int (length (?enc (take j out)))"
    if eq: "int (length (?enc out)) = last (s # f # bs) - s"
  proof
    fix b assume b: "b \<in> set (s # f # bs)"
    from eq have p_eq: "int (length (?enc part)) = f - s"
      and m_eq: "int (length (?enc more)) = last (f # bs) - f"
      unfolding total last_eq using part_le more_le by linarith+
    show "\<exists>j\<le>length out. b = s + int (length (?enc (take j out)))"
    proof (cases "b = s")
      case True
      then have "0 \<le> length out \<and> b = s + int (length (?enc (take 0 out)))" by simp
      then show ?thesis by blast
    next
      case False
      with b have "b \<in> set (f # bs)" by simp
      with more_eq[OF m_eq] obtain j where
        j: "j \<le> length more" "b = f + int (length (?enc (take j more)))" by blast
      have "take (length part + j) out = part @ take j more" by (simp add: out)
      then have "b = s + int (length (?enc (take (length part + j) out)))"
        using j(2) p_eq by (simp add: huffmanEncode_append)
      moreover have "length part + j \<le> length out" using j(1) by (simp add: out)
      ultimately show ?thesis by blast
    qed
  qed
  from le al show ?case by blast
qed

lemma decode_split_sufficient_inner:
  assumes "\<not> is_leaf rootNode"
    and "codes = createHuffmanCodes (Some rootNode) [] Map.empty"
    and "set data \<subseteq> dom codes"
    and "encoded = huffmanEncode data codes"
    and "is_split bs encoded"
    and "set bs \<subseteq> set (codeword_boundaries data codes)"
    and "int (length encoded) < 2 ^ 31"
  shows "decode_split encoded rootNode bs = Inr data"
proof -
  let ?enc = "\<lambda>xs. huffmanEncode xs codes"
  from assms(5) obtain s bs' where bs: "bs = s # bs'" and s: "s = 0"
    and last: "last (s # bs') = int (length encoded)" and sorted: "sorted (s # bs')"
    by (cases bs) (auto simp: is_split_def)
  from assms(6) have sub: "set (s # bs') \<subseteq> set (codeword_boundaries data codes)"
    by (simp add: bs)
  have s_enc: "s = int (length (?enc (take 0 data)))" by (simp add: s)
  from decode_split_aligned[OF assms(1,2,3,4,7) sorted sub _ s_enc] obtain jl where
    jl: "jl \<le> length data" "last (s # bs') = int (length (?enc (take jl data)))"
      "decode_split encoded rootNode (s # bs') = Inr (drop 0 (take jl data))"
    by auto
  have "jl = length data"
  proof (rule ccontr)
    assume "jl \<noteq> length data"
    with jl(1) have "jl < length data" by simp
    from boundary_mono[OF assms(1,2,3) this] have
      "length (?enc (take jl data)) < length (?enc data)" by simp
    with jl(2) last assms(4) show False by simp
  qed
  with jl(3) show ?thesis by (simp add: bs)
qed

lemma decode_split_necessary_inner:
  assumes "\<not> is_leaf rootNode" and "distinct (leaf_chars (Some rootNode))"
    and "codes = createHuffmanCodes (Some rootNode) [] Map.empty"
    and "encoded = huffmanEncode data codes"
    and "is_split bs encoded"
    and "decode_split encoded rootNode bs = Inr data"
    and "int (length encoded) < 2 ^ 31"
  shows "set bs \<subseteq> set (codeword_boundaries data codes)"
proof -
  let ?enc = "\<lambda>xs. huffmanEncode xs codes"
  from assms(5) obtain s bs' where bs: "bs = s # bs'" and s: "s = 0"
    and last: "last (s # bs') = int (length encoded)" and sorted: "sorted (s # bs')"
    by (cases bs) (auto simp: is_split_def)
  from assms(6) have dec: "decode_split encoded rootNode (s # bs') = Inr data"
    by (simp add: bs)
  have be: "bits encoded" unfolding assms(4) assms(3) by (rule huffmanEncode_bits)
  have "int (length (?enc data)) = last (s # bs') - s"
    using last s assms(4) by simp
  with decode_split_bound[OF assms(1,2,3) be assms(7) sorted _ _ dec] last s
  have "\<forall>b\<in>set (s # bs'). \<exists>j\<le>length data.
          b = s + int (length (?enc (take j data)))"
    by simp
  then show ?thesis
    unfolding bs using s by (auto simp: in_codeword_boundaries)
qed

text \<open>A tree of one leaf: the only code is empty, and so is every encoding.\<close>

lemma leaf_root_encode:
  assumes "is_leaf rootNode"
  shows "huffmanEncode data (createHuffmanCodes (Some rootNode) [] Map.empty) = []"
proof -
  have codes: "createHuffmanCodes (Some rootNode) [] Map.empty = [character rootNode \<mapsto> []]"
    using assms by (cases rootNode) (simp add: is_leaf_def)
  have "code_of [character rootNode \<mapsto> []] c = []" for c
    by (simp add: code_of_def)
  then have "huffmanEncode data [character rootNode \<mapsto> []] = []"
    by (induction data) simp_all
  then show ?thesis by (simp only: codes)
qed

lemma sorted_le_last: "sorted xs \<Longrightarrow> b \<in> set xs \<Longrightarrow> b \<le> last (xs :: int list)"
proof (induction xs)
  case Nil
  then show ?case by simp
next
  case (Cons x xs)
  show ?case
  proof (cases "xs = []")
    case True
    with Cons.prems show ?thesis by simp
  next
    case False
    then have "last xs \<in> set xs" by simp
    with Cons.prems(1) have "x \<le> last xs" by auto
    with Cons False show ?thesis by auto
  qed
qed

lemma is_split_empty: "is_split bs [] \<Longrightarrow> set bs \<subseteq> {0}"
proof
  fix b assume s: "is_split bs []" and b: "b \<in> set bs"
  from s have ne: "bs \<noteq> []" and h: "hd bs = 0" and l: "last bs = 0" and so: "sorted bs"
    by (auto simp: is_split_def)
  have "hd bs \<le> b" using so b ne by (cases bs) auto
  moreover have "b \<le> last bs" using so b by (rule sorted_le_last)
  ultimately show "b \<in> {0}" using h l by simp
qed

lemma decode_split_zeros: "set bs \<subseteq> {0} \<Longrightarrow> decode_split [] rootNode bs = Inr []"
proof (induction "[] :: string" rootNode bs rule: decode_split.induct)
  case (1 rootNode s f bs)
  then have "s = 0" "f = 0" by simp_all
  moreover have "threadedDecode [] rootNode 0 0 = Inr []"
    by (simp add: threadedDecode_def threaded_loop.simps)
  ultimately show ?case using 1 by (simp add: int32_zero)
qed simp_all

lemma zero_codeword_boundary: "0 \<in> set (codeword_boundaries data codes)"
  unfolding in_codeword_boundaries by (rule exI[of _ 0]) simp

lemma decode_split_sufficient:
  assumes "codes = createHuffmanCodes (Some rootNode) [] Map.empty"
    and "set data \<subseteq> dom codes"
    and "encoded = huffmanEncode data codes"
    and "is_split bs encoded"
    and "set bs \<subseteq> set (codeword_boundaries data codes)"
    and "int (length encoded) < 2 ^ 31"
  shows "decode_split encoded rootNode bs = huffmanDecode rootNode encoded"
proof (cases "is_leaf rootNode")
  case True
  then have e: "encoded = []" unfolding assms(3) assms(1) by (rule leaf_root_encode)
  then show ?thesis
    using assms(4) is_split_empty decode_split_zeros by (simp add: huffmanDecode_def)
next
  case False
  have "huffmanDecode rootNode encoded = Inr data"
    using decode_encode[OF False] assms(1,2,3) by simp
  moreover have "decode_split encoded rootNode bs = Inr data"
    using False assms by (rule decode_split_sufficient_inner)
  ultimately show ?thesis by simp
qed

lemma decode_split_iff:
  assumes "distinct (leaf_chars (Some rootNode))"
    and "codes = createHuffmanCodes (Some rootNode) [] Map.empty"
    and "set data \<subseteq> dom codes"
    and "encoded = huffmanEncode data codes"
    and "is_split bs encoded"
    and "int (length encoded) < 2 ^ 31"
  shows "decode_split encoded rootNode bs = huffmanDecode rootNode encoded
           \<longleftrightarrow> set bs \<subseteq> set (codeword_boundaries data codes)"
proof
  assume "set bs \<subseteq> set (codeword_boundaries data codes)"
  from assms(2-5) this assms(6)
  show "decode_split encoded rootNode bs = huffmanDecode rootNode encoded"
    by (rule decode_split_sufficient)
next
  assume eq: "decode_split encoded rootNode bs = huffmanDecode rootNode encoded"
  show "set bs \<subseteq> set (codeword_boundaries data codes)"
  proof (cases "is_leaf rootNode")
    case True
    then have "encoded = []" unfolding assms(4) assms(2) by (rule leaf_root_encode)
    with assms(5) have "set bs \<subseteq> {0}" using is_split_empty by simp
    then show ?thesis using zero_codeword_boundary by auto
  next
    case False
    have "huffmanDecode rootNode encoded = Inr data"
      using decode_encode[OF False] assms(2,3,4) by simp
    with eq have "decode_split encoded rootNode bs = Inr data" by simp
    from False assms(1,2,4,5) this assms(6) show ?thesis
      by (rule decode_split_necessary_inner)
  qed
qed

section \<open>What the decoders make of every character\<close>

text \<open>
  A run of the loop only appends to what it has returned so far, and the next character it
  returns is at a leaf below the node where it stands.
\<close>

lemma decode_loop_prefix:
  "decode_loop root cur payload res = Inr out \<Longrightarrow> prefix res out"
proof (induction payload arbitrary: cur res)
  case Nil
  then show ?case by simp
next
  case (Cons b payload)
  from Cons.prems obtain nxt where
    nxt: "(if b = CHR ''0'' then leftChild cur else rightChild cur) = Some nxt"
    by (auto split: option.splits)
  show ?case
  proof (cases "is_leaf nxt")
    case True
    with Cons.prems nxt have "decode_loop root root payload (res @ [character nxt]) = Inr out"
      by (auto simp: is_leaf_def split: if_splits)
    then have "prefix (res @ [character nxt]) out" by (rule Cons.IH)
    then show ?thesis by (rule append_prefixD)
  next
    case False
    with Cons.prems nxt have "decode_loop root nxt payload res = Inr out"
      by (auto simp: is_leaf_def split: if_splits)
    then show ?thesis by (rule Cons.IH)
  qed
qed

lemma leaf_chars_leaf: "is_leaf n \<Longrightarrow> leaf_chars (Some n) = [character n]"
  by (cases n) (simp add: is_leaf_def)

lemma leaf_chars_child:
  "(if b = CHR ''0'' then leftChild cur else rightChild cur) = Some nxt \<Longrightarrow>
   set (leaf_chars (Some nxt)) \<subseteq> set (leaf_chars (Some cur))"
  by (cases cur) (auto split: if_splits)

lemma decode_loop_first:
  "decode_loop root cur payload res = Inr out \<Longrightarrow>
   \<exists>ys. out = res @ ys \<and> (ys \<noteq> [] \<longrightarrow> hd ys \<in> set (leaf_chars (Some cur)))"
proof (induction payload arbitrary: cur)
  case Nil
  then have "out = res @ [] \<and> ([] \<noteq> [] \<longrightarrow> hd [] \<in> set (leaf_chars (Some cur)))" by simp
  then show ?case by blast
next
  case (Cons b payload)
  from Cons.prems obtain nxt where
    nxt: "(if b = CHR ''0'' then leftChild cur else rightChild cur) = Some nxt"
    by (auto split: option.splits)
  note sub = leaf_chars_child[OF nxt]
  show ?case
  proof (cases "is_leaf nxt")
    case True
    with Cons.prems nxt have "decode_loop root root payload (res @ [character nxt]) = Inr out"
      by (auto simp: is_leaf_def split: if_splits)
    then have "prefix (res @ [character nxt]) out" by (rule decode_loop_prefix)
    then obtain zs where "out = res @ character nxt # zs" by (auto simp: prefix_def)
    moreover have "character nxt \<in> set (leaf_chars (Some cur))"
      using sub leaf_chars_leaf[OF True] by simp
    ultimately have "out = res @ (character nxt # zs) \<and>
        (character nxt # zs \<noteq> [] \<longrightarrow> hd (character nxt # zs) \<in> set (leaf_chars (Some cur)))"
      by simp
    then show ?thesis by blast
  next
    case False
    with Cons.prems nxt have "decode_loop root nxt payload res = Inr out"
      by (auto simp: is_leaf_def split: if_splits)
    from Cons.IH[OF this] obtain ys where
      "out = res @ ys" "ys \<noteq> [] \<longrightarrow> hd ys \<in> set (leaf_chars (Some nxt))" by blast
    with sub have "out = res @ ys \<and> (ys \<noteq> [] \<longrightarrow> hd ys \<in> set (leaf_chars (Some cur)))"
      by auto
    then show ?thesis by blast
  qed
qed

lemma huffmanDecode_first:
  assumes "huffmanDecode root payload = Inr out" and "payload \<noteq> []" and "out \<noteq> []"
  shows "hd out \<in> set (leaf_chars (if hd payload = CHR ''0'' then leftChild root
                                     else rightChild root))"
proof -
  from assms(2) obtain b rest where p: "payload = b # rest" by (cases payload) auto
  from assms(1) have run: "decode_loop root root (b # rest) [] = Inr out"
    by (simp add: huffmanDecode_def p)
  then obtain nxt where
    nxt: "(if b = CHR ''0'' then leftChild root else rightChild root) = Some nxt"
    by (auto split: option.splits)
  have "hd out \<in> set (leaf_chars (Some nxt))"
  proof (cases "is_leaf nxt")
    case True
    with run nxt have "decode_loop root root rest ([] @ [character nxt]) = Inr out"
      by (auto simp: is_leaf_def split: if_splits)
    then have "prefix ([] @ [character nxt]) out" by (rule decode_loop_prefix)
    then have "hd out = character nxt" by (auto simp: prefix_def)
    then show ?thesis by (simp add: leaf_chars_leaf[OF True])
  next
    case False
    with run nxt have "decode_loop root nxt rest [] = Inr out"
      by (auto simp: is_leaf_def split: if_splits)
    from decode_loop_first[OF this] assms(3) show ?thesis by auto
  qed
  then show ?thesis using nxt by (simp add: p split: if_splits)
qed

lemma huffmanDecode_as_bit_encode:
  assumes "\<not> is_leaf root"
    and "set data \<subseteq> dom (createHuffmanCodes (Some root) [] Map.empty)"
    and "map as_bit payload = huffmanEncode data (createHuffmanCodes (Some root) [] Map.empty) @ q"
    and "createHuffmanCodes (Some root) [] Map.empty ch = Some p"
    and "strict_prefix q p"
  shows "huffmanDecode root payload = Inr data"
proof -
  let ?codes = "createHuffmanCodes (Some root) [] Map.empty"
  have "huffmanDecode root payload = decode_loop root root (map as_bit payload) []"
    by (simp add: huffmanDecode_def decode_loop_as_bit)
  also have "\<dots> = decode_loop root root (huffmanEncode data ?codes @ q) []"
    by (simp only: assms(3))
  also have "\<dots> = decode_loop root root q ([] @ data)"
    using assms(1) refl assms(2) by (rule decode_loop_encode)
  also have "\<dots> = Inr ([] @ data)"
    using assms(1,4,5) by (rule decode_code(3))
  finally show ?thesis by simp
qed

text \<open>
  C10.  \<^verbatim>\<open>huffmanDecode\<close> and \<^verbatim>\<open>threadedDecode\<close> go to the left child on \<^verbatim>\<open>'0'\<close> and to the
  right child on every other character, and they reject nothing:

    \<^item> the result on a text is the result on the text with every character other than
      \<^verbatim>\<open>'0'\<close> replaced by \<^verbatim>\<open>'1'\<close>;

    \<^item> on a strict tree whose root is not a leaf neither of them fails, whatever the
      characters are;

    \<^item> \<^verbatim>\<open>threadedDecode\<close> on a range inside the text returns what \<^verbatim>\<open>huffmanDecode\<close> returns
      on that part of the text;

    \<^item> the first character returned is at a leaf below the left child of the root when the
      text starts with \<^verbatim>\<open>'0'\<close>, and below the right child when it starts with any other
      character;

    \<^item> a text that reads, with every character other than \<^verbatim>\<open>'0'\<close> taken as \<^verbatim>\<open>'1'\<close>, as
      the encoding of some data followed by the beginning of a code, is decoded to that data.
\<close>

theorem decoders_accept_every_character:
  "huffmanDecode rootNode payload = huffmanDecode rootNode (map as_bit payload) \<and>
   threadedDecode payload rootNode start finish
     = threadedDecode (map as_bit payload) rootNode start finish \<and>
   (strict rootNode \<and> \<not> is_leaf rootNode \<longrightarrow>
      (\<exists>res. huffmanDecode rootNode payload = Inr res)) \<and>
   (strict rootNode \<and> \<not> is_leaf rootNode \<and> 0 \<le> start \<and> finish \<le> int (length payload) \<longrightarrow>
      (\<exists>res. threadedDecode payload rootNode start finish = Inr res)) \<and>
   (0 \<le> start \<and> start \<le> finish \<and> finish \<le> int (length payload) \<longrightarrow>
      threadedDecode payload rootNode start finish
        = huffmanDecode rootNode (take (nat (finish - start)) (drop (nat start) payload))) \<and>
   (huffmanDecode rootNode payload = Inr out \<and> payload \<noteq> [] \<and> out \<noteq> [] \<longrightarrow>
      hd out \<in> set (leaf_chars (if hd payload = CHR ''0'' then leftChild rootNode
                                   else rightChild rootNode))) \<and>
   (\<not> is_leaf rootNode \<and>
    set data \<subseteq> dom (createHuffmanCodes (Some rootNode) [] Map.empty) \<and>
    map as_bit payload
      = huffmanEncode data (createHuffmanCodes (Some rootNode) [] Map.empty) @ q \<and>
    (\<exists>ch p. createHuffmanCodes (Some rootNode) [] Map.empty ch = Some p \<and> strict_prefix q p) \<longrightarrow>
      huffmanDecode rootNode payload = Inr data)"
proof (intro conjI impI)
  show "huffmanDecode rootNode payload = huffmanDecode rootNode (map as_bit payload)"
    by (simp add: huffmanDecode_def decode_loop_as_bit)
  show "threadedDecode payload rootNode start finish
          = threadedDecode (map as_bit payload) rootNode start finish"
    by (simp add: threadedDecode_def threaded_loop_as_bit)
next
  assume "strict rootNode \<and> \<not> is_leaf rootNode"
  then show "\<exists>res. huffmanDecode rootNode payload = Inr res"
    unfolding huffmanDecode_def using decode_loop_total by blast
next
  assume a: "strict rootNode \<and> \<not> is_leaf rootNode \<and> 0 \<le> start \<and> finish \<le> int (length payload)"
  show "\<exists>res. threadedDecode payload rootNode start finish = Inr res"
  proof (cases "start \<le> finish")
    case True
    with a have "threadedDecode payload rootNode start finish
        = decode_loop rootNode rootNode (take (nat (finish - start)) (drop (nat start) payload)) []"
      by (simp add: threadedDecode_def threaded_loop_eq)
    then show ?thesis using a decode_loop_total by metis
  next
    case False
    then show ?thesis by (simp add: threadedDecode_def threaded_loop.simps)
  qed
next
  assume "0 \<le> start \<and> start \<le> finish \<and> finish \<le> int (length payload)"
  then show "threadedDecode payload rootNode start finish
        = huffmanDecode rootNode (take (nat (finish - start)) (drop (nat start) payload))"
    by (simp add: threadedDecode_def threaded_loop_eq huffmanDecode_def)
next
  assume "huffmanDecode rootNode payload = Inr out \<and> payload \<noteq> [] \<and> out \<noteq> []"
  then have "huffmanDecode rootNode payload = Inr out" "payload \<noteq> []" "out \<noteq> []" by simp_all
  then show "hd out \<in> set (leaf_chars (if hd payload = CHR ''0'' then leftChild rootNode
                                   else rightChild rootNode))"
    by (rule huffmanDecode_first)
next
  let ?codes = "createHuffmanCodes (Some rootNode) [] Map.empty"
  assume a: "\<not> is_leaf rootNode \<and> set data \<subseteq> dom ?codes \<and>
    map as_bit payload = huffmanEncode data ?codes @ q \<and>
    (\<exists>ch p. ?codes ch = Some p \<and> strict_prefix q p)"
  then obtain ch p where cp: "?codes ch = Some p" "strict_prefix q p" by blast
  from a have "\<not> is_leaf rootNode" "set data \<subseteq> dom ?codes"
    "map as_bit payload = huffmanEncode data ?codes @ q" by simp_all
  then show "huffmanDecode rootNode payload = Inr data"
    using cp by (rule huffmanDecode_as_bit_encode)
qed

theorem decoders_accept_every_character_witness:
  "strict example_tree \<and> \<not> is_leaf example_tree \<and>
   (0::int) \<le> 1 \<and> (1::int) \<le> 4 \<and> 4 \<le> int (length ''0x1y0'') \<and>
   set ''bcc'' \<subseteq> dom (createHuffmanCodes (Some example_tree) [] Map.empty) \<and>
   map as_bit ''0x1y0''
     = huffmanEncode ''bcc'' (createHuffmanCodes (Some example_tree) [] Map.empty) @ ''0'' \<and>
   createHuffmanCodes (Some example_tree) [] Map.empty CHR ''a'' = Some ''00'' \<and>
   strict_prefix ''0'' ''00'' \<and>
   huffmanDecode example_tree ''0x1y0'' = Inr ''bcc'' \<and>
   huffmanDecode example_tree ''0x1y0'' = huffmanDecode example_tree ''01110'' \<and>
   hd ''0x1y0'' = CHR ''0'' \<and>
   hd ''bcc'' \<in> set (leaf_chars (leftChild example_tree)) \<and>
   hd ''bcc'' \<notin> set (leaf_chars (rightChild example_tree)) \<and>
   set ''ccc'' \<subseteq> dom (createHuffmanCodes (Some example_tree) [] Map.empty) \<and>
   map as_bit ''x1y''
     = huffmanEncode ''ccc'' (createHuffmanCodes (Some example_tree) [] Map.empty) @ [] \<and>
   strict_prefix [] ''00'' \<and>
   huffmanDecode example_tree ''x1y'' = Inr ''ccc'' \<and>
   hd ''x1y'' \<noteq> CHR ''0'' \<and>
   hd ''ccc'' \<in> set (leaf_chars (rightChild example_tree)) \<and>
   hd ''ccc'' \<notin> set (leaf_chars (leftChild example_tree)) \<and>
   threadedDecode ''0x1y0'' example_tree 1 4
     = threadedDecode ''01110'' example_tree 1 4 \<and>
   threadedDecode ''0x1y0'' example_tree 1 4 = Inr ''ccc''"
proof -
  let ?codes = "createHuffmanCodes (Some example_tree) [] Map.empty"
  have t: "strict example_tree" "\<not> is_leaf example_tree"
    by (simp_all add: example_tree_def new_node_def is_leaf_def)
  have r: "(0::int) \<le> 1" "(1::int) \<le> 4" "4 \<le> int (length ''0x1y0'')" by simp_all
  have d1: "set ''bcc'' \<subseteq> dom ?codes" and d2: "set ''ccc'' \<subseteq> dom ?codes"
    by (simp_all add: dom_createHuffmanCodes example_tree_def new_node_def)
  have e1: "map as_bit ''0x1y0'' = huffmanEncode ''bcc'' ?codes @ ''0''" by code_simp
  have e2: "map as_bit ''x1y'' = huffmanEncode ''ccc'' ?codes @ []" by code_simp
  have m1: "map as_bit ''0x1y0'' = ''01110''" by (simp add: as_bit_def)
  have a: "?codes CHR ''a'' = Some ''00''" by code_simp
  have p1: "strict_prefix ''0'' ''00''" and p2: "strict_prefix [] ''00''"
    by (simp_all add: strict_prefix_def)
  have h: "hd ''0x1y0'' = CHR ''0''" "hd ''x1y'' \<noteq> CHR ''0''" by simp_all
  have l: "leaf_chars (leftChild example_tree) = ''ab''"
      "leaf_chars (rightChild example_tree) = ''c''"
    by (simp_all add: example_tree_def new_node_def)
  note A = decoders_accept_every_character[where rootNode = example_tree
      and payload = "''0x1y0''" and start = 1 and finish = 4 and out = "''bcc''"
      and data = "''bcc''" and q = "''0''"]
  note B = decoders_accept_every_character[where rootNode = example_tree
      and payload = "''x1y''" and start = 0 and finish = 3 and out = "''ccc''"
      and data = "''ccc''" and q = "[]"]
  from A t d1 e1 a p1 have v1: "huffmanDecode example_tree ''0x1y0'' = Inr ''bcc''" by blast
  from B t d2 e2 a p2 have v2: "huffmanDecode example_tree ''x1y'' = Inr ''ccc''" by blast
  from A have "huffmanDecode example_tree ''0x1y0''
                 = huffmanDecode example_tree (map as_bit ''0x1y0'')" by blast
  then have i1: "huffmanDecode example_tree ''0x1y0'' = huffmanDecode example_tree ''01110''"
    by (simp only: m1)
  from A have "threadedDecode ''0x1y0'' example_tree 1 4
                 = threadedDecode (map as_bit ''0x1y0'') example_tree 1 4" by blast
  then have i2: "threadedDecode ''0x1y0'' example_tree 1 4
                   = threadedDecode ''01110'' example_tree 1 4"
    by (simp only: m1)
  from A v1 have "hd ''bcc'' \<in> set (leaf_chars (if hd ''0x1y0'' = CHR ''0''
      then leftChild example_tree else rightChild example_tree))" by blast
  then have f1: "hd ''bcc'' \<in> set (leaf_chars (leftChild example_tree))" by simp
  from B v2 have "hd ''ccc'' \<in> set (leaf_chars (if hd ''x1y'' = CHR ''0''
      then leftChild example_tree else rightChild example_tree))" by blast
  then have f2: "hd ''ccc'' \<in> set (leaf_chars (rightChild example_tree))" by simp
  have n1: "hd ''bcc'' \<notin> set (leaf_chars (rightChild example_tree))"
    and n2: "hd ''ccc'' \<notin> set (leaf_chars (leftChild example_tree))"
    by (simp_all add: l)
  from A r have "threadedDecode ''0x1y0'' example_tree 1 4
      = huffmanDecode example_tree (take (nat (4 - 1)) (drop (nat 1) ''0x1y0''))" by blast
  then have s: "threadedDecode ''0x1y0'' example_tree 1 4 = Inr ''ccc''"
    by (simp add: v2)
  from t r d1 e1 a p1 v1 i1 h(1) f1 n1 d2 e2 p2 v2 h(2) f2 n2 i2 s show ?thesis
    by (intro conjI)
qed

section \<open>The tree as read back\<close>

lemma skeleton_left: "leftChild (skeleton n) = map_option skeleton (leftChild n)"
  by (induction n rule: skeleton.induct) simp_all

lemma skeleton_right: "rightChild (skeleton n) = map_option skeleton (rightChild n)"
  by (induction n rule: skeleton.induct) simp_all

lemma skeleton_leaf_char:
  "leftChild n = None \<Longrightarrow> rightChild n = None \<Longrightarrow> character (skeleton n) = character n"
  by (induction n rule: skeleton.induct) simp_all

lemma is_leaf_skeleton: "is_leaf (skeleton n) = is_leaf n"
  by (simp add: is_leaf_def skeleton_left skeleton_right)

lemma decode_loop_skeleton:
  "decode_loop (skeleton root) (skeleton cur) payload res = decode_loop root cur payload res"
proof (induction payload arbitrary: cur res)
  case Nil
  show ?case by simp
next
  case (Cons b payload)
  show ?case
  proof (cases "if b = CHR ''0'' then leftChild cur else rightChild cur")
    case None
    then show ?thesis by (auto simp: skeleton_left skeleton_right split: if_splits)
  next
    case (Some nxt)
    then have sk: "(if b = CHR ''0'' then leftChild (skeleton cur) else rightChild (skeleton cur))
                     = Some (skeleton nxt)"
      by (auto simp: skeleton_left skeleton_right split: if_splits)
    show ?thesis
    proof (cases "leftChild nxt = None \<and> rightChild nxt = None")
      case True
      then have "leftChild (skeleton nxt) = None \<and> rightChild (skeleton nxt) = None"
        by (simp add: skeleton_left skeleton_right)
      then show ?thesis
        using True Some sk Cons.IH[of root] by (auto simp: skeleton_leaf_char split: if_splits)
    next
      case False
      then have "\<not> (leftChild (skeleton nxt) = None \<and> rightChild (skeleton nxt) = None)"
        by (simp add: skeleton_left skeleton_right)
      then show ?thesis
        using False Some sk Cons.IH[of nxt] by (auto split: if_splits)
    qed
  qed
qed

lemma huffmanDecode_skeleton: "huffmanDecode (skeleton root) payload = huffmanDecode root payload"
  by (simp add: huffmanDecode_def decode_loop_skeleton)

lemma threadedDecode_skeleton:
  assumes "0 \<le> s" "f \<le> int (length e)"
  shows "threadedDecode e (skeleton root) s f = threadedDecode e root s f"
proof (cases "s \<le> f")
  case True
  then show ?thesis
    using assms by (simp add: threadedDecode_slice decode_loop_skeleton)
next
  case False
  then show ?thesis by (simp add: threadedDecode_def threaded_loop.simps)
qed

section \<open>The workers of decompressDataFile\<close>

lemma decode_workers_done: "decode_workers e root W slice W segs = Inr segs"
  by (subst decode_workers.simps) simp

lemma decode_workers_split:
  assumes W: "1 \<le> W" and n: "int (length e) < 2 ^ 31"
  shows "0 \<le> i \<Longrightarrow> i < W \<Longrightarrow> k = nat (W - 1 - i) \<Longrightarrow>
         (case decode_workers e root W (int (length e) div W) i segs of
            Inl x \<Rightarrow> Inl x | Inr ss \<Rightarrow> Inr (concat ss))
         = (case decode_split e root
                   (map (\<lambda>j. j * (int (length e) div W)) [i..W - 1] @ [int (length e)]) of
              Inl x \<Rightarrow> Inl x | Inr out \<Rightarrow> Inr (concat segs @ out))"
proof (induction k arbitrary: i segs)
  case 0
  let ?n = "int (length e)" and ?s = "int (length e) div W"
  from 0 have i: "i = W - 1" by simp
  have s0: "0 \<le> i * ?s" using "0.prems"(1) W by (simp add: pos_imp_zdiv_nonneg_iff)
  have s1: "i * ?s \<le> ?n" using slice_times_le[OF W "0.prems"(1), of "length e"] "0.prems"(2) by simp
  have start: "int32 (i * ?s) = i * ?s" using s0 s1 n by (intro int32_id) linarith+
  have stop: "int32 ?n = ?n" using n by (intro int32_id) linarith+
  have up: "[i..W - 1] = [i]" using i by simp
  show ?case
    by (subst decode_workers.simps)
       (simp add: i[symmetric] start stop up Let_def decode_workers_done[of e root "i + 1", simplified i]
          split: sum.splits, simp add: i decode_workers_done)
next
  case (Suc k)
  let ?n = "int (length e)" and ?s = "int (length e) div W"
  from Suc.prems have lt: "i < W - 1" by linarith
  have s0: "0 \<le> i * ?s" using Suc.prems(1) W by (simp add: pos_imp_zdiv_nonneg_iff)
  have s2: "(i + 1) * ?s \<le> ?n"
    using slice_times_le[OF W, of "i + 1" "length e"] Suc.prems(1) lt by simp
  have sn: "0 \<le> ?s" using W by (simp add: pos_imp_zdiv_nonneg_iff)
  have s1: "i * ?s \<le> ?n" using s2 sn by (simp add: distrib_right)
  have start: "int32 (i * ?s) = i * ?s" using s0 s1 n by (intro int32_id) linarith+
  have stop: "int32 (i * ?s + ?s) = (i + 1) * ?s"
  proof -
    have "0 \<le> i * ?s + ?s" "i * ?s + ?s < 2 ^ 31"
      using s0 s2 sn n by (simp_all add: distrib_right)
    then have "int32 (i * ?s + ?s) = i * ?s + ?s" by (intro int32_id) linarith+
    then show ?thesis by (simp add: distrib_right)
  qed
  have stop': "int32 ((i + 1) * ?s) = (i + 1) * ?s"
    using stop by (simp add: distrib_right)
  have up': "[i + 1..W - 1] = (i + 1) # [i + 1 + 1..W - 1]"
    using lt by (intro upto_rec1) simp
  have "[i..W - 1] = i # [i + 1..W - 1]"
    using lt by (intro upto_rec1) simp
  then have up: "[i..W - 1] = i # (i + 1) # [i + 1 + 1..W - 1]"
    using up' by simp
  have IH: "(case decode_workers e root W ?s (i + 1) segs' of
               Inl x \<Rightarrow> Inl x | Inr ss \<Rightarrow> Inr (concat ss))
            = (case decode_split e root (map (\<lambda>j. j * ?s) [i + 1..W - 1] @ [?n]) of
                 Inl x \<Rightarrow> Inl x | Inr out \<Rightarrow> Inr (concat segs' @ out))" for segs'
    using Suc.IH[of "i + 1" segs'] Suc.prems lt by simp
  have ne: "i \<noteq> W - 1" using lt by simp
  show ?case
  proof (cases "threadedDecode e root (i * ?s) ((i + 1) * ?s)")
    case (Inl x)
    then show ?thesis
      by (subst decode_workers.simps) (simp add: start stop stop' ne Let_def up Suc.prems(2))
  next
    case (Inr part)
    have "(case decode_workers e root W ?s i segs of
             Inl x \<Rightarrow> Inl x | Inr ss \<Rightarrow> Inr (concat ss))
          = (case decode_workers e root W ?s (i + 1) (segs @ [part]) of
               Inl x \<Rightarrow> Inl x | Inr ss \<Rightarrow> Inr (concat ss))"
      by (subst decode_workers.simps) (simp add: start stop ne Let_def Inr Suc.prems(2))
    also have "\<dots> = (case decode_split e root (map (\<lambda>j. j * ?s) [i + 1..W - 1] @ [?n]) of
                 Inl x \<Rightarrow> Inl x | Inr out \<Rightarrow> Inr (concat (segs @ [part]) @ out))"
      by (rule IH)
    also have "\<dots> = (case decode_split e root (map (\<lambda>j. j * ?s) [i..W - 1] @ [?n]) of
                 Inl x \<Rightarrow> Inl x | Inr out \<Rightarrow> Inr (concat segs @ out))"
      unfolding up up' using Inr by (simp add: start stop' split: sum.splits)
    finally show ?thesis .
  qed
qed

lemma decodeParallel_split:
  assumes "1 \<le> W" and "int (length e) < 2 ^ 31"
  shows "decodeParallel e root W = decode_split e root (worker_bounds (length e) W)"
proof -
  let ?n = "int (length e)"
  have "0 \<le> ?n div W" "?n div W \<le> ?n"
    using assms(1) slice_times_le[of W 1 "length e"] by (simp_all add: pos_imp_zdiv_nonneg_iff)
  with assms have slice: "slice_of (length e) W = Inr (?n div W)"
    by (simp add: slice_of_def int32_id)
  have "(case decode_workers e root W (?n div W) 0 [] of
            Inl x \<Rightarrow> Inl x | Inr ss \<Rightarrow> Inr (concat ss))
        = (case decode_split e root (map (\<lambda>j. j * (?n div W)) [0..W - 1] @ [?n]) of
              Inl x \<Rightarrow> Inl x | Inr out \<Rightarrow> Inr (concat [] @ out))"
    using decode_workers_split[OF assms, of 0 "nat (W - 1)" root "[]"] assms(1) by simp
  then show ?thesis
    using slice assms(1) by (simp add: decodeParallel_def worker_bounds_def split: sum.splits)
qed


section \<open>What compressDataFile writes\<close>

lemma strict_new_node: "strict (new_node c f)"
  by (simp add: new_node_def)

lemma compress_built:
  assumes W: "1 \<le> W" and n: "length data < 2 ^ 31" and ne: "data \<noteq> []"
  shows "\<exists>root. compressDataFile tie data W
                  = Inr (writeHuffmanTree (Some root) @ [CHR 0x0A]
                         @ huffmanEncode data (createHuffmanCodes (Some root) [] Map.empty)) \<and>
               strict root \<and> distinct (leaf_chars (Some root)) \<and>
               set (leaf_chars (Some root)) = set data \<and>
               (2 \<le> card (set data) \<longrightarrow> \<not> is_leaf root) \<and>
               (card (set data) = 1 \<longrightarrow>
                  root = new_node (hd data) (lookup0 (countFrequencySingle data Map.empty) (hd data)))"
proof -
  let ?freq = "countFrequencySingle data Map.empty"
  let ?keys = "keys_of ?freq"
  let ?h = "seed_heap ?freq"
  have count: "countFrequencyParallel data W = Inr ?freq"
    using W n by (rule countFrequencyParallel_sequential)
  have keys: "set ?keys = set data" "distinct ?keys"
    by (simp_all add: set_keys_of dom_countFrequencySingle keys_of_distinct)
  have h: "?h = map (\<lambda>c. new_node c (lookup0 ?freq c)) ?keys" by (rule seed_heap_map)
  have h_ne: "?h \<noteq> []" using keys(1) ne by (simp add: h) (metis empty_set set_empty)
  have h_strict: "\<forall>t\<in>set ?h. strict t" by (auto simp: h strict_new_node)
  have h_len: "length ?h = card (set data)"
    using keys by (simp add: h) (metis distinct_card)
  from merge_loop_result[OF h_ne h_strict, of tie] obtain root where
    root: "merge_loop tie ?h = [root]" "strict root"
      "mset (leaf_chars (Some root)) = forest_leaves ?h"
      "2 \<le> length ?h \<longrightarrow> \<not> is_leaf root"
    by blast
  have leaves: "mset (leaf_chars (Some root)) = mset ?keys"
    using root(3) by (simp add: h forest_leaves_seed)
  have dist: "distinct (leaf_chars (Some root))"
    using leaves keys(2) by (metis mset_eq_imp_distinct_iff)
  have set_eq: "set (leaf_chars (Some root)) = set data"
    using leaves keys(1) by (metis mset_eq_setD)
  have single: "root = new_node (hd data) (lookup0 ?freq (hd data))" if "card (set data) = 1"
  proof -
    from that have "length ?keys = 1" using keys by (metis distinct_card)
    then obtain c where c: "?keys = [c]" by (cases ?keys) auto
    with keys(1) ne have "hd data = c" by (metis hd_in_set empty_iff insert_iff list.simps(15) set_empty)
    moreover have "merge_loop tie ?h = ?h"
      by (subst merge_loop.simps) (simp add: h c)
    ultimately show ?thesis using root(1) by (simp add: h c)
  qed
  have "compressDataFile tie data W
          = Inr (writeHuffmanTree (Some root) @ [CHR 0x0A]
                 @ huffmanEncode data (createHuffmanCodes (Some root) [] Map.empty))"
    by (simp add: compressDataFile_def count root(1) pq_top_single Let_def)
  with root(2,4) dist set_eq single h_len show ?thesis by auto
qed

lemma compress_empty: "1 \<le> W \<Longrightarrow> compressDataFile tie [] W = Inl EmptyQueueTop"
proof -
  assume W: "1 \<le> W"
  have "countFrequencyParallel [] W = Inr (countFrequencySingle [] Map.empty)"
    using W by (intro countFrequencyParallel_sequential) simp_all
  moreover have "keys_of Map.empty = []" by (simp add: keys_of_def)
  ultimately show ?thesis
    by (simp add: compressDataFile_def seed_heap_def merge_loop_empty pq_top_def)
qed

section \<open>What decompressDataFile returns\<close>

lemma worker_bounds_range:
  assumes "1 \<le> W"
  shows "\<forall>b\<in>set (worker_bounds n W). 0 \<le> b \<and> b \<le> int n"
proof
  fix b assume "b \<in> set (worker_bounds n W)"
  then consider "b = int n" | i where "0 \<le> i" "i \<le> W - 1" "b = i * (int n div W)"
    by (auto simp: worker_bounds_def)
  then show "0 \<le> b \<and> b \<le> int n"
  proof cases
    case 1 then show ?thesis by simp
  next
    case 2
    then show ?thesis
      using slice_times_le[OF assms, of i n] assms by (simp add: pos_imp_zdiv_nonneg_iff)
  qed
qed

lemma worker_bounds_split:
  assumes "1 \<le> W"
  shows "is_split (worker_bounds (length e) W) e"
proof -
  let ?s = "int (length e) div W"
  have s: "0 \<le> ?s" using assms by (simp add: pos_imp_zdiv_nonneg_iff)
  have "[0..W - 1] = 0 # [0 + 1..W - 1]" using assms by (intro upto_rec1) simp
  then have hd: "hd (worker_bounds (length e) W) = 0" by (simp add: worker_bounds_def)
  have "sorted (map (\<lambda>i. i * ?s) [0..W - 1])"
    using s by (simp add: sorted_map sorted_wrt_iff_nth_less mult_right_mono)
  moreover have "\<forall>b\<in>set (map (\<lambda>i. i * ?s) [0..W - 1]). b \<le> int (length e)"
    using worker_bounds_range[OF assms, of "length e"] by (simp add: worker_bounds_def)
  ultimately have "sorted (worker_bounds (length e) W)"
    by (simp add: worker_bounds_def sorted_append)
  with hd show ?thesis by (simp add: is_split_def worker_bounds_def)
qed

lemma decode_split_skeleton:
  "\<forall>b\<in>set bs. 0 \<le> b \<and> b \<le> int (length e) \<Longrightarrow> int (length e) < 2 ^ 31 \<Longrightarrow>
   decode_split e (skeleton root) bs = decode_split e root bs"
proof (induction e root bs rule: decode_split.induct)
  case (1 e root s f bs)
  from "1.prems"(1) have b: "0 \<le> s" "s \<le> int (length e)" "0 \<le> f" "f \<le> int (length e)"
    by simp_all
  note s32 = int32_index[OF b(1,2) "1.prems"(2)] and f32 = int32_index[OF b(3,4) "1.prems"(2)]
  from 1 b show ?case by (simp add: s32 f32 threadedDecode_skeleton split: sum.splits)
qed simp_all

lemma decompress_built:
  assumes "strict root" and "\<not> is_leaf root" and "1 \<le> W" and "int (length e) < 2 ^ 31"
  shows "decompressDataFile (writeHuffmanTree (Some root) @ [CHR 0x0A] @ e) W
           = decode_split e root (worker_bounds (length e) W)"
proof -
  have read: "readHuffmanTree (writeHuffmanTree (Some root) @ CHR 0x0A # e)
                = Inr (skeleton root, CHR 0x0A # e)"
    using assms(1) by (rule readHuffmanTree_write)
  obtain out where "decode_loop root root e [] = Inr out"
    using decode_loop_total[OF assms(1,2) assms(1,2), of e "[]"] by blast
  then have seq: "huffmanDecode (skeleton root) e = Inr out"
    by (simp add: huffmanDecode_def decode_loop_skeleton)
  have "decodeParallel e (skeleton root) W
          = decode_split e (skeleton root) (worker_bounds (length e) W)"
    using assms(3,4) by (rule decodeParallel_split)
  also have "\<dots> = decode_split e root (worker_bounds (length e) W)"
    using worker_bounds_range[OF assms(3)] assms(4) by (rule decode_split_skeleton)
  finally show ?thesis
    by (simp add: decompressDataFile_def read seq)
qed


section \<open>Round trips\<close>

lemma worker_bounds_one: "worker_bounds n 1 = [0, int n]"
  by (simp add: worker_bounds_def)

lemma decode_split_whole:
  assumes "int (length e) < 2 ^ 31"
  shows "decode_split e root [0, int (length e)] = huffmanDecode root e"
proof -
  have "int32 (int (length e)) = int (length e)"
    using _ _ assms by (rule int32_index) simp_all
  then show ?thesis
    by (simp add: int32_zero threadedDecode_slice huffmanDecode_def split: sum.splits)
qed

lemma roundtrip_one_worker:
  assumes "1 \<le> Wc" and "length data < 2 ^ 31" and "2 \<le> card (set data)"
    and "compressDataFile tie data Wc = Inr artifact" and "length artifact < 2 ^ 31"
  shows "decompressDataFile artifact 1 = Inr data"
proof -
  from assms(3) have ne: "data \<noteq> []" by auto
  from compress_built[OF assms(1,2) ne, of tie] assms(3,4) obtain root where
    art: "artifact = writeHuffmanTree (Some root) @ [CHR 0x0A]
            @ huffmanEncode data (createHuffmanCodes (Some root) [] Map.empty)"
    and root: "strict root" "set (leaf_chars (Some root)) = set data" "\<not> is_leaf root"
    by auto
  let ?codes = "createHuffmanCodes (Some root) [] Map.empty"
  let ?e = "huffmanEncode data ?codes"
  have "length ?e \<le> length artifact" unfolding art by simp
  with assms(5) have "length ?e < 2 ^ 31" by simp
  then have "int (length ?e) < int (2 ^ 31)" by (simp only: of_nat_less_iff)
  then have len: "int (length ?e) < 2 ^ 31" by simp
  have dom: "set data \<subseteq> dom ?codes" by (simp add: dom_createHuffmanCodes root(2))
  have "decompressDataFile artifact 1 = decode_split ?e root (worker_bounds (length ?e) 1)"
    unfolding art using root(1,3) _ len by (rule decompress_built) simp
  also have "\<dots> = huffmanDecode root ?e"
    by (simp only: worker_bounds_one decode_split_whole[OF len])
  also have "\<dots> = Inr data" using root(3) dom by (rule decode_encode)
  finally show ?thesis .
qed

lemma truncated_one_worker:
  assumes "1 \<le> Wc" and "length data < 2 ^ 31" and "2 \<le> card (set data)"
    and "compressDataFile tie data Wc = Inr artifact" and "length artifact < 2 ^ 31"
  shows "decompressDataFile (butlast artifact) 1 = Inr (butlast data)"
proof -
  from assms(3) have ne: "data \<noteq> []" by auto
  from compress_built[OF assms(1,2) ne, of tie] assms(3,4) obtain root where
    art: "artifact = writeHuffmanTree (Some root) @ [CHR 0x0A]
            @ huffmanEncode data (createHuffmanCodes (Some root) [] Map.empty)"
    and root: "strict root" "set (leaf_chars (Some root)) = set data" "\<not> is_leaf root"
    by auto
  let ?codes = "createHuffmanCodes (Some root) [] Map.empty"
  let ?e = "huffmanEncode data ?codes"
  let ?e' = "butlast ?e"
  have dom: "set data \<subseteq> dom ?codes" by (simp add: dom_createHuffmanCodes root(2))
  have "length data \<le> length ?e" using root(3) refl dom by (rule encode_length_ge)
  with ne have e_ne: "?e \<noteq> []" by auto
  then have art': "butlast artifact = writeHuffmanTree (Some root) @ [CHR 0x0A] @ ?e'"
    unfolding art by (simp add: butlast_append)
  have "length ?e' \<le> length artifact" unfolding art by simp
  with assms(5) have "length ?e' < 2 ^ 31" by simp
  then have "int (length ?e') < int (2 ^ 31)" by (simp only: of_nat_less_iff)
  then have len: "int (length ?e') < 2 ^ 31" by simp
  have "decompressDataFile (butlast artifact) 1
          = decode_split ?e' root (worker_bounds (length ?e') 1)"
    unfolding art' using root(1,3) _ len by (rule decompress_built) simp
  also have "\<dots> = huffmanDecode root ?e'"
    by (simp only: worker_bounds_one decode_split_whole[OF len])
  also have "\<dots> = Inr (butlast data)" using root(3) dom ne by (rule huffmanDecode_truncated)
  finally show ?thesis .
qed

section \<open>The program on three inputs\<close>

lemma top_position_unique: "least_positions h = [i] \<Longrightarrow> top_position tie h = i"
  by (simp add: top_position_def)

lemma compress_ccccabb:
  "compressDataFile tie ''ccccabb'' 2 = Inr (''001a1b1c'' @ [CHR 0x0A] @ ''1111000101'')"
proof -
  let ?A = "HuffmanNode CHR ''a'' 1 None None" and ?B = "HuffmanNode CHR ''b'' 2 None None"
    and ?C = "HuffmanNode CHR ''c'' 4 None None"
  let ?M = "HuffmanNode (CHR 0x00) 3 (Some ?A) (Some ?B)"
  let ?R = "HuffmanNode (CHR 0x00) 7 (Some ?M) (Some ?C)"
  have count: "countFrequencyParallel ''ccccabb'' 2 = Inr (countFrequencySingle ''ccccabb'' Map.empty)"
    by (rule countFrequencyParallel_sequential) simp_all
  have seed: "seed_heap (countFrequencySingle ''ccccabb'' Map.empty) = [?A, ?B, ?C]"
    by code_simp
  have p1: "top_position tie [?A, ?B, ?C] = 0"
    by (rule top_position_unique) code_simp
  have p2: "top_position tie [?B, ?C] = 0"
    by (rule top_position_unique) code_simp
  have p3: "top_position tie [?C, ?M] = 1"
    by (rule top_position_unique) code_simp
  have p4: "top_position tie [?C] = 0"
    by (rule top_position_unique) code_simp
  have i3: "int32 3 = 3" "int32 7 = 7" by (simp_all add: int32_id)
  have last: "merge_loop tie [?R] = [?R]" by (subst merge_loop.simps) simp
  have second: "merge_loop tie [?C, ?M] = [?R]"
    by (subst merge_loop.simps) (simp add: Let_def pq_pop_def pq_push_def p3 p4 i3 last)
  have first: "merge_loop tie [?A, ?B, ?C] = [?R]"
    by (subst merge_loop.simps)
       (simp add: Let_def pq_pop_def pq_push_def p1 p2 i3 second)
  have rest: "writeHuffmanTree (Some ?R) @ [CHR 0x0A]
                @ huffmanEncode ''ccccabb'' (createHuffmanCodes (Some ?R) [] Map.empty)
              = ''001a1b1c'' @ [CHR 0x0A] @ ''1111000101''"
    by code_simp
  have "compressDataFile tie ''ccccabb'' 2
          = Inr (writeHuffmanTree (Some ?R) @ [CHR 0x0A]
                 @ huffmanEncode ''ccccabb'' (createHuffmanCodes (Some ?R) [] Map.empty))"
    by (simp only: compressDataFile_def count seed first pq_top_single Let_def sum.case)
  then show ?thesis by (simp only: rest)
qed

lemma decompress_ccccabb:
  "decompressDataFile (''001a1b1c'' @ [CHR 0x0A] @ ''1111000101'') 2 = Inr ''ccccacb''"
  by code_simp

lemma compress_single_symbol:
  assumes "1 \<le> W" and "length data < 2 ^ 31" and "data \<noteq> []" and "set data = {c}"
  shows "compressDataFile tie data W = Inr [CHR ''1'', c, CHR 0x0A]"
proof -
  from assms(3,4) have hd: "hd data = c" by (metis hd_in_set singletonD)
  have enc: "huffmanEncode xs [c \<mapsto> []] = []" for xs
    by (induction xs) (simp_all add: code_of_def)
  from compress_built[OF assms(1,2,3), of tie] assms(4) hd obtain f where
    "compressDataFile tie data W
       = Inr (writeHuffmanTree (Some (new_node c f)) @ [CHR 0x0A]
              @ huffmanEncode data (createHuffmanCodes (Some (new_node c f)) [] Map.empty))"
    by auto
  then show ?thesis by (simp add: new_node_def enc)
qed

section \<open>The pipelines and the claims about them\<close>

lemma roundtrip_iff_aligned:
  assumes "1 \<le> Wc" and "length data < 2 ^ 31" and "2 \<le> card (set data)"
    and "compressDataFile tie data Wc = Inr artifact" and "length artifact < 2 ^ 31"
    and "1 \<le> W"
  shows "\<exists>root e. artifact = writeHuffmanTree (Some root) @ [CHR 0x0A] @ e \<and>
           e = huffmanEncode data (createHuffmanCodes (Some root) [] Map.empty) \<and>
           (decompressDataFile artifact W = Inr data \<longleftrightarrow>
              set (worker_bounds (length e) W)
                \<subseteq> set (codeword_boundaries data (createHuffmanCodes (Some root) [] Map.empty)))"
proof -
  from assms(3) have ne: "data \<noteq> []" by auto
  from compress_built[OF assms(1,2) ne, of tie] assms(3,4) obtain root where
    art: "artifact = writeHuffmanTree (Some root) @ [CHR 0x0A]
            @ huffmanEncode data (createHuffmanCodes (Some root) [] Map.empty)"
    and root: "strict root" "distinct (leaf_chars (Some root))"
      "set (leaf_chars (Some root)) = set data" "\<not> is_leaf root"
    by auto
  let ?codes = "createHuffmanCodes (Some root) [] Map.empty"
  let ?e = "huffmanEncode data ?codes"
  have "length ?e \<le> length artifact" unfolding art by simp
  with assms(5) have "length ?e < 2 ^ 31" by simp
  then have "int (length ?e) < int (2 ^ 31)" by (simp only: of_nat_less_iff)
  then have len: "int (length ?e) < 2 ^ 31" by simp
  have dom: "set data \<subseteq> dom ?codes" by (simp add: dom_createHuffmanCodes root(3))
  have dec: "decompressDataFile artifact W = decode_split ?e root (worker_bounds (length ?e) W)"
    unfolding art using root(1,4) assms(6) len by (rule decompress_built)
  have seq: "huffmanDecode root ?e = Inr data" using root(4) dom by (rule decode_encode)
  have "decode_split ?e root (worker_bounds (length ?e) W) = huffmanDecode root ?e
          \<longleftrightarrow> set (worker_bounds (length ?e) W) \<subseteq> set (codeword_boundaries data ?codes)"
    using root(2) refl dom refl worker_bounds_split[OF assms(6)] len by (rule decode_split_iff)
  with dec seq art show ?thesis by auto
qed

text \<open>
  A text of \<open>2^31\<close> characters: the end of the one range wraps to \<open>- 2^31\<close>, and the worker
  returns without reading a character.
\<close>

lemma decode_two_gib:
  assumes "length e = 2 ^ 31"
  shows "decode_split e root [0, 2 ^ 31] = Inr []" and "decodeParallel e root 1 = Inr []"
proof -
  have n: "int (length e) = 2 ^ 31" using assms by simp
  have worker: "threadedDecode e root 0 (- 2147483648) = Inr []"
    by (simp add: threadedDecode_def threaded_loop.simps)
  show "decode_split e root [0, 2 ^ 31] = Inr []"
    by (simp add: int32_zero int32_wrap worker)
  have "decode_workers e root 1 (- 2147483648) 0 [] = Inr [[]]"
    by (subst decode_workers.simps)
       (simp add: n int32_zero int32_wrap worker decode_workers_done)
  then show "decodeParallel e root 1 = Inr []"
    by (simp add: decodeParallel_def slice_of_def n int32_wrap)
qed

text \<open>
  C2 as the code has it.  Take the bit text that \<^verbatim>\<open>huffmanEncode\<close> produces for some data
  with the code table of a tree, shorter than \<open>2^31\<close> characters, and any split of it into
  contiguous ranges.  If every boundary of the split is a code-word boundary of the encoding,
  the results of \<^verbatim>\<open>threadedDecode\<close> on the ranges, each started at the root, join to the
  result of \<^verbatim>\<open>huffmanDecode\<close> on the whole text.  When the leaves of the tree carry different
  characters, as they do in every tree that \<^verbatim>\<open>compressDataFile\<close> builds, the converse holds as
  well.  The boundaries \<open>i * (len div W)\<close> that \<^verbatim>\<open>decompressDataFile\<close> uses with \<open>W \<ge> 1\<close>
  workers are one such split, so what its workers return is right under that condition and
  only under it.
\<close>

theorem split_decode_iff_aligned:
  assumes "codes = createHuffmanCodes (Some rootNode) [] Map.empty"
    and "set data \<subseteq> dom codes"
    and "encoded = huffmanEncode data codes"
    and "length encoded < 2 ^ 31"
  shows "(is_split bs encoded \<and> set bs \<subseteq> set (codeword_boundaries data codes) \<longrightarrow>
           decode_split encoded rootNode bs = huffmanDecode rootNode encoded) \<and>
         (is_split bs encoded \<and> distinct (leaf_chars (Some rootNode)) \<longrightarrow>
           (decode_split encoded rootNode bs = huffmanDecode rootNode encoded
              \<longleftrightarrow> set bs \<subseteq> set (codeword_boundaries data codes))) \<and>
         (1 \<le> W \<and> distinct (leaf_chars (Some rootNode)) \<longrightarrow>
           (decodeParallel encoded rootNode W = huffmanDecode rootNode encoded
              \<longleftrightarrow> set (worker_bounds (length encoded) W)
                    \<subseteq> set (codeword_boundaries data codes)))"
proof -
  from assms(4) have "int (length encoded) < int (2 ^ 31)" by (simp only: of_nat_less_iff)
  then have len: "int (length encoded) < 2 ^ 31" by simp
  show ?thesis
  proof (intro conjI impI)
    assume a: "is_split bs encoded \<and> set bs \<subseteq> set (codeword_boundaries data codes)"
    from a have a1: "is_split bs encoded"
      and a2: "set bs \<subseteq> set (codeword_boundaries data codes)" by simp_all
    from assms(1-3) a1 a2 len
    show "decode_split encoded rootNode bs = huffmanDecode rootNode encoded"
      by (rule decode_split_sufficient)
  next
    assume a: "is_split bs encoded \<and> distinct (leaf_chars (Some rootNode))"
    from a have a1: "is_split bs encoded"
      and a2: "distinct (leaf_chars (Some rootNode))" by simp_all
    from a2 assms(1-3) a1 len
    show "decode_split encoded rootNode bs = huffmanDecode rootNode encoded
            \<longleftrightarrow> set bs \<subseteq> set (codeword_boundaries data codes)"
      by (rule decode_split_iff)
  next
    assume a: "1 \<le> W \<and> distinct (leaf_chars (Some rootNode))"
    from a have W: "1 \<le> W" and dist: "distinct (leaf_chars (Some rootNode))" by simp_all
    have par: "decodeParallel encoded rootNode W
                 = decode_split encoded rootNode (worker_bounds (length encoded) W)"
      using W len by (rule decodeParallel_split)
    have "is_split (worker_bounds (length encoded) W) encoded"
      using W by (rule worker_bounds_split)
    with dist assms(1-3)
    have "decode_split encoded rootNode (worker_bounds (length encoded) W)
            = huffmanDecode rootNode encoded
          \<longleftrightarrow> set (worker_bounds (length encoded) W)
                \<subseteq> set (codeword_boundaries data codes)"
      using len by (rule decode_split_iff)
    then show "decodeParallel encoded rootNode W = huffmanDecode rootNode encoded
        \<longleftrightarrow> set (worker_bounds (length encoded) W)
              \<subseteq> set (codeword_boundaries data codes)"
      by (simp only: par)
  qed
qed

theorem split_decode_iff_aligned_witness:
  "set ''ccccabb'' \<subseteq> dom (createHuffmanCodes (Some example_tree) [] Map.empty) \<and>
   huffmanEncode ''ccccabb'' (createHuffmanCodes (Some example_tree) [] Map.empty)
     = ''1111000101'' \<and>
   length ''1111000101'' < 2 ^ 31 \<and>
   is_split [0, 4, 10] ''1111000101'' \<and> distinct (leaf_chars (Some example_tree)) \<and>
   (1::int) \<le> 5 \<and>
   set [0, 4, 10]
     \<subseteq> set (codeword_boundaries ''ccccabb''
               (createHuffmanCodes (Some example_tree) [] Map.empty)) \<and>
   decode_split ''1111000101'' example_tree [0, 4, 10]
     = huffmanDecode example_tree ''1111000101'' \<and>
   set (worker_bounds (length ''1111000101'') 5)
     \<subseteq> set (codeword_boundaries ''ccccabb''
               (createHuffmanCodes (Some example_tree) [] Map.empty)) \<and>
   decodeParallel ''1111000101'' example_tree 5 = huffmanDecode example_tree ''1111000101''"
proof -
  let ?codes = "createHuffmanCodes (Some example_tree) [] Map.empty"
  have h2: "distinct (leaf_chars (Some example_tree))" by code_simp
  have h3: "set ''ccccabb'' \<subseteq> dom ?codes"
    by (simp add: dom_createHuffmanCodes example_tree_def new_node_def)
  have h4: "''1111000101'' = huffmanEncode ''ccccabb'' ?codes" by code_simp
  have h5: "is_split [0, 4, 10] ''1111000101''" by (simp add: is_split_def)
  have h6: "length ''1111000101'' < 2 ^ 31" by simp
  have h7: "(1::int) \<le> 5" by simp
  have a1: "set [0, 4, 10] \<subseteq> set (codeword_boundaries ''ccccabb'' ?codes)" by code_simp
  have a2: "set (worker_bounds (length ''1111000101'') 5)
              \<subseteq> set (codeword_boundaries ''ccccabb'' ?codes)" by code_simp
  from split_decode_iff_aligned[OF refl h3 h4 h6, of "[0, 4, 10]" 5] h2 h5 h7 a1 a2
  have "decode_split ''1111000101'' example_tree [0, 4, 10]
          = huffmanDecode example_tree ''1111000101''"
    and "decodeParallel ''1111000101'' example_tree 5 = huffmanDecode example_tree ''1111000101''"
    by blast+
  with h2 h3 h4 h5 h6 h7 a1 a2 show ?thesis by simp
qed

text \<open>
  Without the bound the statement fails: \<^verbatim>\<open>begin\<close> and \<^verbatim>\<open>finish\<close> are \<^verbatim>\<open>int\<close>s.  The
  encoding of \<open>2^31\<close> bytes \<^verbatim>\<open>c\<close> with the codes of the example tree is \<open>2^31\<close> characters
  \<^verbatim>\<open>1\<close>.  The split into the one range from 0 to the length has code-word boundaries only, and
  it is the split of \<^verbatim>\<open>decompressDataFile\<close> with one worker; the end of the range wraps to
  \<open>- 2^31\<close>, the worker's loop does not run, and the worker returns the empty string where
  \<^verbatim>\<open>huffmanDecode\<close> returns the \<open>2^31\<close> bytes.
\<close>

theorem split_decode_counterexample:
  "set (replicate (2 ^ 31) CHR ''c'')
     \<subseteq> dom (createHuffmanCodes (Some example_tree) [] Map.empty) \<and>
   is_split [0, 2 ^ 31]
     (huffmanEncode (replicate (2 ^ 31) CHR ''c'')
        (createHuffmanCodes (Some example_tree) [] Map.empty)) \<and>
   set [0, 2 ^ 31]
     \<subseteq> set (codeword_boundaries (replicate (2 ^ 31) CHR ''c'')
               (createHuffmanCodes (Some example_tree) [] Map.empty)) \<and>
   worker_bounds
     (length (huffmanEncode (replicate (2 ^ 31) CHR ''c'')
        (createHuffmanCodes (Some example_tree) [] Map.empty))) 1 = [0, 2 ^ 31] \<and>
   huffmanDecode example_tree
     (huffmanEncode (replicate (2 ^ 31) CHR ''c'')
        (createHuffmanCodes (Some example_tree) [] Map.empty))
     = Inr (replicate (2 ^ 31) CHR ''c'') \<and>
   decode_split
     (huffmanEncode (replicate (2 ^ 31) CHR ''c'')
        (createHuffmanCodes (Some example_tree) [] Map.empty)) example_tree [0, 2 ^ 31]
     = Inr [] \<and>
   decodeParallel
     (huffmanEncode (replicate (2 ^ 31) CHR ''c'')
        (createHuffmanCodes (Some example_tree) [] Map.empty)) example_tree 1
     = Inr [] \<and>
   decode_split
     (huffmanEncode (replicate (2 ^ 31) CHR ''c'')
        (createHuffmanCodes (Some example_tree) [] Map.empty)) example_tree [0, 2 ^ 31]
     \<noteq> huffmanDecode example_tree
         (huffmanEncode (replicate (2 ^ 31) CHR ''c'')
            (createHuffmanCodes (Some example_tree) [] Map.empty))"
proof -
  let ?d = "replicate (2 ^ 31) CHR ''c''"
  let ?codes = "createHuffmanCodes (Some example_tree) [] Map.empty"
  let ?e = "huffmanEncode ?d ?codes"
  have code_c: "code_of ?codes CHR ''c'' = ''1''" by code_simp
  have enc: "huffmanEncode (replicate k CHR ''c'') ?codes = replicate k CHR ''1''" for k
    by (induction k) (simp_all add: code_c)
  have len_nat: "length ?e = 2 ^ 31" by (simp only: enc length_replicate)
  then have len: "int (length ?e) = 2 ^ 31" by simp
  have inner: "\<not> is_leaf example_tree" by (simp add: example_tree_def is_leaf_def)
  have "CHR ''c'' \<in> dom ?codes"
    by (simp add: dom_createHuffmanCodes example_tree_def new_node_def)
  then have dom: "set ?d \<subseteq> dom ?codes" by auto
  have split: "is_split [0, 2 ^ 31] ?e" unfolding is_split_def len by simp
  have "int (length (huffmanEncode (take (length ?d) ?d) ?codes)) = 2 ^ 31"
    by (simp only: take_all[OF order_refl] len)
  then have "2 ^ 31 \<in> set (codeword_boundaries ?d ?codes)"
    unfolding in_codeword_boundaries by (intro exI[of _ "length ?d"]) simp
  then have al: "set [0, 2 ^ 31] \<subseteq> set (codeword_boundaries ?d ?codes)"
    using zero_codeword_boundary[of ?d ?codes] by simp
  have wb: "worker_bounds (length ?e) 1 = [0, 2 ^ 31]"
    by (simp only: worker_bounds_one len)
  have seq: "huffmanDecode example_tree ?e = Inr ?d" using inner dom by (rule decode_encode)
  have dec: "decode_split ?e example_tree [0, 2 ^ 31] = Inr []"
    using len_nat by (rule decode_two_gib(1))
  have par: "decodeParallel ?e example_tree 1 = Inr []"
    using len_nat by (rule decode_two_gib(2))
  have "length ?d = 2 ^ 31" by simp
  then have "?d \<noteq> []" by (metis length_0_conv power_not_zero zero_neq_numeral)
  with dec seq have ne: "decode_split ?e example_tree [0, 2 ^ 31] \<noteq> huffmanDecode example_tree ?e"
    by simp
  from dom split al wb seq dec par ne show ?thesis by (intro conjI)
qed

text \<open>
  C6 as the code has it.  For every artifact that \<^verbatim>\<open>compressDataFile\<close> writes, with one or
  more workers, for a buffer of fewer than \<open>2^31\<close> bytes with at least two different byte
  values, the artifact being shorter than \<open>2^31\<close> characters as well, dropping the last bit
  of the payload does not make decoding fail: \<^verbatim>\<open>decompressDataFile\<close> with one worker and
  \<^verbatim>\<open>huffmanDecode\<close> on the tree read from the artifact both return the original bytes without
  the last one.  No error is reported; what remains of the last code is dropped.
\<close>

theorem truncated_payload_decodes:
  assumes "1 \<le> Wc" and "length data < 2 ^ 31" and "2 \<le> card (set data)"
    and "compressDataFile tie data Wc = Inr artifact" and "length artifact < 2 ^ 31"
  shows "decompressDataFile (butlast artifact) 1 = Inr (butlast data) \<and>
         (\<exists>root rest. readHuffmanTree artifact = Inr (root, rest) \<and>
            huffmanDecode root (butlast (drop 1 rest)) = Inr (butlast data))"
proof
  show "decompressDataFile (butlast artifact) 1 = Inr (butlast data)"
    using assms by (rule truncated_one_worker)
next
  from assms(3) have ne: "data \<noteq> []" by auto
  from compress_built[OF assms(1,2) ne, of tie] assms(3,4) obtain root where
    art: "artifact = writeHuffmanTree (Some root) @ CHR 0x0A
            # huffmanEncode data (createHuffmanCodes (Some root) [] Map.empty)"
    and root: "strict root" "set (leaf_chars (Some root)) = set data" "\<not> is_leaf root"
    by auto
  let ?codes = "createHuffmanCodes (Some root) [] Map.empty"
  let ?e = "huffmanEncode data ?codes"
  have dom: "set data \<subseteq> dom ?codes" by (simp add: dom_createHuffmanCodes root(2))
  have read: "readHuffmanTree artifact = Inr (skeleton root, CHR 0x0A # ?e)"
    unfolding art using root(1) by (rule readHuffmanTree_write)
  have "huffmanDecode (skeleton root) (butlast ?e) = huffmanDecode root (butlast ?e)"
    by (rule huffmanDecode_skeleton)
  also have "\<dots> = Inr (butlast data)" using root(3) dom ne by (rule huffmanDecode_truncated)
  finally have "huffmanDecode (skeleton root) (butlast (drop 1 (CHR 0x0A # ?e))) = Inr (butlast data)"
    by simp
  with read show "\<exists>root rest. readHuffmanTree artifact = Inr (root, rest) \<and>
            huffmanDecode root (butlast (drop 1 rest)) = Inr (butlast data)"
    by blast
qed

theorem truncated_payload_decodes_witness:
  "(1::int) \<le> 1 \<and> length ''ccccabb'' < 2 ^ 31 \<and> 2 \<le> card (set ''ccccabb'') \<and>
   compressDataFile first_least ''ccccabb'' 1
     = Inr (''001a1b1c'' @ [CHR 0x0A] @ ''1111000101'') \<and>
   length (''001a1b1c'' @ [CHR 0x0A] @ ''1111000101'') < 2 ^ 31 \<and>
   decompressDataFile (butlast (''001a1b1c'' @ [CHR 0x0A] @ ''1111000101'')) 1
     = Inr (butlast ''ccccabb'') \<and>
   (\<exists>root rest.
      readHuffmanTree (''001a1b1c'' @ [CHR 0x0A] @ ''1111000101'') = Inr (root, rest) \<and>
      huffmanDecode root (butlast (drop 1 rest)) = Inr (butlast ''ccccabb''))"
proof -
  have c: "compressDataFile first_least ''ccccabb'' 1
             = Inr (''001a1b1c'' @ [CHR 0x0A] @ ''1111000101'')"
    by code_simp
  have k: "2 \<le> card (set ''ccccabb'')" by code_simp
  have l: "(1::int) \<le> 1" "length ''ccccabb'' < 2 ^ 31"
    "length (''001a1b1c'' @ [CHR 0x0A] @ ''1111000101'') < 2 ^ 31" by simp_all
  from truncated_payload_decodes[OF l(1,2) k c l(3)] c k l show ?thesis by blast
qed

text \<open>
  The claim as the specification has it fails on the artifact of \<^verbatim>\<open>ccccabb\<close>: with the last
  payload bit removed, \<^verbatim>\<open>decompressDataFile\<close> and \<^verbatim>\<open>huffmanDecode\<close> return \<^verbatim>\<open>ccccab\<close> and
  report nothing.
\<close>

theorem truncated_payload_counterexample:
  "compressDataFile first_least ''ccccabb'' 1
     = Inr (''001a1b1c'' @ [CHR 0x0A] @ ''1111000101'') \<and>
   decompressDataFile (''001a1b1c'' @ [CHR 0x0A] @ ''111100010'') 1 = Inr ''ccccab'' \<and>
   huffmanDecode example_tree ''111100010'' = Inr ''ccccab''"
  by code_simp

text \<open>
  C1 on the code.  Compressing the seven bytes \<^verbatim>\<open>ccccabb\<close> and decompressing the result, both
  with two workers, returns \<^verbatim>\<open>ccccacb\<close>: the ten payload bits are split at index 5, inside
  the code of \<^verbatim>\<open>a\<close>.  No two nodes ever have the same frequency here, so the tree does not
  depend on how the queue breaks ties.
\<close>

theorem roundtrip_two_workers_evaluation:
  "compressDataFile tie ''ccccabb'' 2 = Inr (''001a1b1c'' @ [CHR 0x0A] @ ''1111000101'') \<and>
   decompressDataFile (''001a1b1c'' @ [CHR 0x0A] @ ''1111000101'') 2 = Inr ''ccccacb''"
  using compress_ccccabb decompress_ccccabb by simp

text \<open>
  C4 on the code.  For the buffer \<^verbatim>\<open>aaa\<close> the tree is the single leaf, whose code is the
  empty string: nothing follows the tree in the artifact, and decompressing it returns the
  empty buffer.  A text of one bit per byte cannot be decoded against the leaf either: the
  first step goes to a null child.
\<close>

theorem single_symbol_evaluation:
  "createHuffmanCodes (Some (new_node CHR ''a'' 3)) [] Map.empty CHR ''a'' = Some [] \<and>
   compressDataFile tie ''aaa'' 1 = Inr [CHR ''1'', CHR ''a'', CHR 0x0A] \<and>
   decompressDataFile [CHR ''1'', CHR ''a'', CHR 0x0A] 1 = Inr [] \<and>
   huffmanDecode (new_node CHR ''a'' 0) ''000'' = Inl NullDereference"
proof (intro conjI)
  show "createHuffmanCodes (Some (new_node CHR ''a'' 3)) [] Map.empty CHR ''a'' = Some []"
    by (simp add: new_node_def)
  show "compressDataFile tie ''aaa'' 1 = Inr [CHR ''1'', CHR ''a'', CHR 0x0A]"
    by (rule compress_single_symbol) simp_all
  show "decompressDataFile [CHR ''1'', CHR ''a'', CHR 0x0A] 1 = Inr []"
    by code_simp
  show "huffmanDecode (new_node CHR ''a'' 0) ''000'' = Inl NullDereference"
    by code_simp
qed

text \<open>
  C5 on the code.  For the empty buffer nothing is pushed, the loop does not run, and
  \<^verbatim>\<open>minHeap.top()\<close> is called on the empty queue: there is no short cut to an empty artifact.
\<close>

theorem empty_input_evaluation:
  "compressDataFile tie [] 1 = Inl EmptyQueueTop \<and> compressDataFile tie [] 4 = Inl EmptyQueueTop"
  using compress_empty[of 1 tie] compress_empty[of 4 tie] by simp

end
